theory Spec2Isabelle
  imports Main "HOL-Library.Word"
begin

section \<open>Data model of \<^verbatim>\<open>b9/objects.hpp\<close>\<close>

text \<open>
  Pointers are addresses into a store. Map objects (shapes) and Objects are kept in two
  separate areas, as the static types \<^verbatim>\<open>Map*\<close> and \<^verbatim>\<open>Object*\<close> keep them apart.
  An address is the position of the cell in its area; \<^verbatim>\<open>new (cx) T(...)\<close> appends a cell.
\<close>

type_synonym addr = nat

type_synonym Id = "32 word"     \<comment> \<open>\<^verbatim>\<open>using Id = std::uint32_t\<close>\<close>
type_synonym Index = "8 word"   \<comment> \<open>\<^verbatim>\<open>using Index = std::uint8_t\<close>\<close>
type_synonym Value = "32 word"  \<comment> \<open>\<^verbatim>\<open>using Value = std::int32_t\<close>, read with \<open>sint\<close>\<close>

datatype MapKind = OBJECT_MAP | MAP_MAP | EMPTY_OBJECT_MAP

text \<open>
  The class hierarchy \<^verbatim>\<open>Cell\<close>, \<^verbatim>\<open>Map : Cell\<close>, \<^verbatim>\<open>ObjectMap : Map\<close>, \<^verbatim>\<open>Object : Cell\<close>. A name cannot
  end in an underscore here, so the field \<^verbatim>\<open>map_\<close> of \<^verbatim>\<open>Cell\<close> is \<open>Cell_map\<close>, \<^verbatim>\<open>kind_\<close> of \<^verbatim>\<open>Map\<close> is
  \<open>Map_kind\<close>, and so on; \<^verbatim>\<open>Object::set\<close> is \<open>set_slot\<close>, since \<open>set\<close> is the set of a list.
\<close>

record Cell =
  Cell_map :: addr

record Map = Cell +
  Map_kind :: MapKind

record ObjectMap = Map +
  ObjectMap_parent :: addr
  ObjectMap_id :: Id
  ObjectMap_index :: Index

record Object = Cell +
  Object_slots :: "Value list"

text \<open>
  What a \<^verbatim>\<open>Map*\<close> points to: an object with the layout of \<^verbatim>\<open>Map\<close> (a \<^verbatim>\<open>MapMap\<close> or an
  \<^verbatim>\<open>EmptyObjectMap\<close>, which add no fields) or one with the layout of \<^verbatim>\<open>ObjectMap\<close>.
\<close>

datatype MapObj = IsMap Map | IsObjectMap ObjectMap

record store =
  maps :: "MapObj list"
  objects :: "Object list"

definition MAX_SLOTS :: nat where
  "MAX_SLOTS = 32"

text \<open>\<^verbatim>\<open>Map::kind()\<close> and \<^verbatim>\<open>Map::mapMap()\<close>, available on every map object.\<close>

fun kind :: "MapObj \<Rightarrow> MapKind" where
  "kind (IsMap m) = Map_kind m"
| "kind (IsObjectMap om) = Map_kind om"

fun mapMap :: "MapObj \<Rightarrow> addr" where
  "mapMap (IsMap m) = Cell_map m"
| "mapMap (IsObjectMap om) = Cell_map om"

subsection \<open>Constructors of the map classes\<close>

definition MapMap :: "addr \<Rightarrow> Map" where
  \<comment> \<open>\<^verbatim>\<open>MapMap() : Map(this, MapKind::MAP_MAP)\<close>; the argument is the address of the new object\<close>
  "MapMap this = \<lparr>Cell_map = this, Map_kind = MAP_MAP\<rparr>"

definition EmptyObjectMap :: "addr \<Rightarrow> Map" where
  "EmptyObjectMap mm = \<lparr>Cell_map = mm, Map_kind = EMPTY_OBJECT_MAP\<rparr>"

definition ObjectMap_of_EmptyObjectMap :: "addr \<Rightarrow> MapObj \<Rightarrow> Id \<Rightarrow> ObjectMap" where
  \<comment> \<open>\<^verbatim>\<open>ObjectMap(EmptyObjectMap* parent, Id id)\<close>: the parent's address and the object there\<close>
  "ObjectMap_of_EmptyObjectMap parent p ident =
     \<lparr>Cell_map = mapMap p, Map_kind = OBJECT_MAP, ObjectMap_parent = parent, ObjectMap_id = ident, ObjectMap_index = 0\<rparr>"

definition ObjectMap_of_ObjectMap :: "addr \<Rightarrow> ObjectMap \<Rightarrow> Id \<Rightarrow> ObjectMap" where
  \<comment> \<open>\<^verbatim>\<open>ObjectMap(ObjectMap* parent, Id id)\<close>; the sum is narrowed to \<^verbatim>\<open>uint8_t\<close>\<close>
  "ObjectMap_of_ObjectMap parent p ident =
     \<lparr>Cell_map = Cell_map p, Map_kind = OBJECT_MAP, ObjectMap_parent = parent, ObjectMap_id = ident, ObjectMap_index = ObjectMap_index p + 1\<rparr>"

text \<open>The setters \<^verbatim>\<open>ObjectMap::id(Id)\<close> and \<^verbatim>\<open>ObjectMap::index(Index)\<close>, which write a map object in place.\<close>

definition ObjectMap_set_id :: "ObjectMap \<Rightarrow> Id \<Rightarrow> ObjectMap" where
  "ObjectMap_set_id om ident = om\<lparr>ObjectMap_id := ident\<rparr>"

definition ObjectMap_set_index :: "ObjectMap \<Rightarrow> Index \<Rightarrow> ObjectMap" where
  "ObjectMap_set_index om i = om\<lparr>ObjectMap_index := i\<rparr>"

subsection \<open>Outcomes\<close>

text \<open>
  A call returns a value, throws (\<^verbatim>\<open>std::runtime_error\<close>, the only exception of the file), or
  has undefined behaviour: a read or write of \<^verbatim>\<open>slots_\<close> outside the array, a dangling pointer,
  a member of \<^verbatim>\<open>ObjectMap\<close> read through a pointer to an object that is not one. A return
  and a throw carry the store they leave; undefined behaviour leaves nothing to speak of.
  A loop that does not end is the value \<open>None\<close>.
\<close>

datatype exception = runtime_error

datatype 'a outcome = Returned 'a store | Thrown exception store | Undefined

definition bind :: "'a outcome option \<Rightarrow> ('a \<Rightarrow> store \<Rightarrow> 'b outcome option) \<Rightarrow> 'b outcome option" where
  "bind m f = (case m of
       None \<Rightarrow> None
     | Some (Returned a s) \<Rightarrow> f a s
     | Some (Thrown e s) \<Rightarrow> Some (Thrown e s)
     | Some Undefined \<Rightarrow> Some Undefined)"

subsection \<open>Objects\<close>

definition Object_of_map :: "addr \<Rightarrow> store \<Rightarrow> addr outcome" where
  \<comment> \<open>\<^verbatim>\<open>Object(ObjectMap* map)\<close> and \<^verbatim>\<open>Object(EmptyObjectMap* map)\<close>: the same body, \<^verbatim>\<open>memset\<close> to zero\<close>
  "Object_of_map m s =
     Returned (length (objects s))
       (s\<lparr>objects := objects s @ [\<lparr>Cell_map = m, Object_slots = replicate MAX_SLOTS 0\<rparr>]\<rparr>)"

definition Object_of_Object :: "addr \<Rightarrow> store \<Rightarrow> addr outcome" where
  \<comment> \<open>\<^verbatim>\<open>Object(Object& other)\<close>: the map pointer and a \<^verbatim>\<open>memcpy\<close> of the \<^verbatim>\<open>MAX_SLOTS\<close> values\<close>
  "Object_of_Object other s =
     (if other < length (objects s) then
        (let ob = objects s ! other in
         Returned (length (objects s))
           (s\<lparr>objects := objects s @ [\<lparr>Cell_map = Cell_map ob, Object_slots = take MAX_SLOTS (Object_slots ob)\<rparr>]\<rparr>))
      else Undefined)"

text \<open>The loop of \<^verbatim>\<open>Object::index(Id)\<close>, from the map \<open>m\<close> on.\<close>

partial_function (option) index_loop :: "store \<Rightarrow> addr \<Rightarrow> Id \<Rightarrow> (Index \<times> bool) outcome option" where
  "index_loop s m ident =
     (if m < length (maps s) then
        (if kind (maps s ! m) \<noteq> EMPTY_OBJECT_MAP then
           (case maps s ! m of
              IsObjectMap om \<Rightarrow>
                if ObjectMap_id om = ident then Some (Returned (ObjectMap_index om, True) s)
                else index_loop s (ObjectMap_parent om) ident
            | IsMap _ \<Rightarrow> Some Undefined)
         else Some (Returned (0, False) s))
      else Some Undefined)"

definition index :: "store \<Rightarrow> addr \<Rightarrow> Id \<Rightarrow> (Index \<times> bool) outcome option" where
  "index s this ident =
     (if this < length (objects s) then index_loop s (Cell_map (objects s ! this)) ident
      else Some Undefined)"

definition slot_read :: "addr \<Rightarrow> nat \<Rightarrow> store \<Rightarrow> Value outcome option" where
  \<comment> \<open>\<^verbatim>\<open>slots_[i]\<close> read, on the object \<open>this\<close>\<close>
  "slot_read this i s =
     (if this < length (objects s) \<and> i < MAX_SLOTS
      then Some (Returned (Object_slots (objects s ! this) ! i) s)
      else Some Undefined)"

definition slot_write :: "addr \<Rightarrow> nat \<Rightarrow> Value \<Rightarrow> store \<Rightarrow> unit outcome option" where
  \<comment> \<open>\<^verbatim>\<open>slots_[i] = value\<close>, on the object \<open>this\<close>\<close>
  "slot_write this i v s =
     (if this < length (objects s) \<and> i < MAX_SLOTS
      then Some (Returned ()
        (s\<lparr>objects := (objects s)[this := (objects s ! this)\<lparr>Object_slots := (Object_slots (objects s ! this))[i := v]\<rparr>]\<rparr>))
      else Some Undefined)"

definition get :: "store \<Rightarrow> addr \<Rightarrow> Id \<Rightarrow> (Value \<times> bool) outcome option" where
  "get s this ident =
     bind (index s this ident) (\<lambda>lookup s1.
       if snd lookup then
         bind (slot_read this (unat (fst lookup)) s1) (\<lambda>val s2. Some (Returned (val, True) s2))
       else Some (Returned (0, False) s1))"

text \<open>
  \<^verbatim>\<open>new (cx) ObjectMap(...)\<close> is taken to succeed (\<^verbatim>\<open>operator new\<close> returns what \<^verbatim>\<open>malloc\<close> returns);
  the line it prints on \<^verbatim>\<open>std::cerr\<close> is not part of the store. \<^verbatim>\<open>Context\<close> and \<^verbatim>\<open>Allocator\<close> hold
  nothing the operations read.
\<close>

definition newSlot :: "store \<Rightarrow> addr \<Rightarrow> Id \<Rightarrow> nat outcome" where
  \<comment> \<open>the result is a \<^verbatim>\<open>std::size_t\<close>; \<^verbatim>\<open>map(m)\<close> re-points the object\<close>
  "newSlot s this ident =
     (if this < length (objects s) \<and> Cell_map (objects s ! this) < length (maps s) then
        (let parent = Cell_map (objects s ! this); p = maps s ! parent; m = length (maps s) in
         case kind p of
           EMPTY_OBJECT_MAP \<Rightarrow>
             Returned (unat (ObjectMap_index (ObjectMap_of_EmptyObjectMap parent p ident)))
               (s\<lparr>maps := maps s @ [IsObjectMap (ObjectMap_of_EmptyObjectMap parent p ident)],
                  objects := (objects s)[this := (objects s ! this)\<lparr>Cell_map := m\<rparr>]\<rparr>)
         | OBJECT_MAP \<Rightarrow>
             (case p of
                IsObjectMap pom \<Rightarrow>
                  Returned (unat (ObjectMap_index (ObjectMap_of_ObjectMap parent pom ident)))
                    (s\<lparr>maps := maps s @ [IsObjectMap (ObjectMap_of_ObjectMap parent pom ident)],
                       objects := (objects s)[this := (objects s ! this)\<lparr>Cell_map := m\<rparr>]\<rparr>)
              | IsMap _ \<Rightarrow> Undefined)
         | MAP_MAP \<Rightarrow> Thrown runtime_error s)
      else Undefined)"

definition set_slot :: "store \<Rightarrow> addr \<Rightarrow> Id \<Rightarrow> Value \<Rightarrow> Index outcome option" where
  \<comment> \<open>\<^verbatim>\<open>Object::set\<close>\<close>
  "set_slot s this ident v =
     bind (index s this ident) (\<lambda>lookup s1.
       if snd lookup then
         bind (slot_write this (unat (fst lookup)) v s1) (\<lambda>_ s2. Some (Returned (fst lookup) s2))
       else
         bind (Some (newSlot s1 this ident)) (\<lambda>i s2.
           bind (slot_write this i v s2) (\<lambda>_ s3. Some (Returned (of_nat i) s3))))"

subsection \<open>Sequences of calls\<close>

text \<open>What a call returned, when it returned.\<close>

fun result :: "'a outcome \<Rightarrow> 'a option" where
  "result (Returned a s) = Some a"
| "result (Thrown e s) = None"
| "result Undefined = None"

text \<open>\<^verbatim>\<open>newSlot\<close> called on one object for each identifier of a list, in order; the slots returned.\<close>

fun newSlots :: "store \<Rightarrow> addr \<Rightarrow> Id list \<Rightarrow> nat list outcome" where
  "newSlots s this [] = Returned [] s"
| "newSlots s this (i # is) =
     (case newSlot s this i of
        Returned x s1 \<Rightarrow>
          (case newSlots s1 this is of
             Returned xs s2 \<Rightarrow> Returned (x # xs) s2
           | Thrown e s2 \<Rightarrow> Thrown e s2
           | Undefined \<Rightarrow> Undefined)
      | Thrown e s1 \<Rightarrow> Thrown e s1
      | Undefined \<Rightarrow> Undefined)"

text \<open>\<^verbatim>\<open>set\<close> called on one object for each pair of a list, in order; the slots returned.\<close>

fun sets :: "store \<Rightarrow> addr \<Rightarrow> (Id \<times> Value) list \<Rightarrow> Index list outcome option" where
  "sets s this [] = Some (Returned [] s)"
| "sets s this (p # ps) =
     bind (set_slot s this (fst p) (snd p)) (\<lambda>x s1.
       bind (sets s1 this ps) (\<lambda>xs s2. Some (Returned (x # xs) s2)))"

text \<open>Any sequence of the three operations, on any objects.\<close>

datatype operation = Get addr Id | Set addr Id Value | NewSlot addr Id

fun run :: "store \<Rightarrow> operation \<Rightarrow> unit outcome option" where
  "run s (Get this i) = bind (get s this i) (\<lambda>_ s1. Some (Returned () s1))"
| "run s (Set this i v) = bind (set_slot s this i v) (\<lambda>_ s1. Some (Returned () s1))"
| "run s (NewSlot this i) = bind (Some (newSlot s this i)) (\<lambda>_ s1. Some (Returned () s1))"

fun run_all :: "store \<Rightarrow> operation list \<Rightarrow> unit outcome option" where
  "run_all s [] = Some (Returned () s)"
| "run_all s (c # cs) = bind (run s c) (\<lambda>_ s1. run_all s1 cs)"

text \<open>
  A context as its initialisation leaves it: the \<^verbatim>\<open>MapMap\<close> at address 0, which is its own map,
  and the \<^verbatim>\<open>EmptyObjectMap\<close> at address 1. \<open>fresh_store\<close> has one object more, built by
  \<^verbatim>\<open>Object(EmptyObjectMap*)\<close> at object address 0.
\<close>

definition context_store :: store where
  "context_store = \<lparr>maps = [IsMap (MapMap 0), IsMap (EmptyObjectMap 0)], objects = []\<rparr>"

definition fresh_store :: store where
  "fresh_store = (case Object_of_map 1 context_store of Returned a s \<Rightarrow> s | _ \<Rightarrow> context_store)"

text \<open>
  \<open>xy_store\<close>: after \<^verbatim>\<open>set(cx, 0, 10)\<close> and \<^verbatim>\<open>set(cx, 1, 20)\<close> on the object of \<open>fresh_store\<close>.
  \<open>mapmap_object_store\<close>: an object whose map pointer was set to the \<^verbatim>\<open>MapMap\<close> (the public
  setter \<^verbatim>\<open>Cell::map(Map*)\<close> allows it).
\<close>

definition xy_store :: store where
  "xy_store =
     (case sets fresh_store 0 [(0, 10), (1, 20)] of Some (Returned xs s) \<Rightarrow> s | _ \<Rightarrow> fresh_store)"

definition mapmap_object_store :: store where
  "mapmap_object_store =
     (case Object_of_map 0 context_store of Returned a s \<Rightarrow> s | _ \<Rightarrow> context_store)"

subsection \<open>Shape chains\<close>

text \<open>
  \<open>chain ms m l\<close>: walking from the map at \<open>m\<close> through the parents reaches an object of kind
  \<^verbatim>\<open>EMPTY_OBJECT_MAP\<close>, and \<open>l\<close> lists the identifier and the slot index of the \<^verbatim>\<open>ObjectMap\<close>s
  passed on the way, the one at \<open>m\<close> first.
\<close>

fun chain :: "MapObj list \<Rightarrow> addr \<Rightarrow> (Id \<times> Index) list \<Rightarrow> bool" where
  "chain ms m [] = (m < length ms \<and> kind (ms ! m) = EMPTY_OBJECT_MAP)"
| "chain ms m (e # l) =
     (m < length ms \<and>
      (case ms ! m of
         IsObjectMap om \<Rightarrow>
           Map_kind om = OBJECT_MAP \<and> ObjectMap_id om = fst e \<and> ObjectMap_index om = snd e \<and>
           chain ms (ObjectMap_parent om) l
       | IsMap mp \<Rightarrow> False))"

text \<open>
  The chain of an object to which the identifiers \<open>rs\<close> were added one by one, the last one
  added first in \<open>rs\<close>: the \<open>k\<close>-th identifier added has the slot index \<open>k\<close>, as an \<^verbatim>\<open>Index\<close>.
\<close>

fun transitions :: "Id list \<Rightarrow> (Id \<times> Index) list" where
  "transitions [] = []"
| "transitions (i # rs) = (i, of_nat (length rs)) # transitions rs"

text \<open>The loop of \<^verbatim>\<open>index\<close> again, stopped after \<open>n\<close> tests of its condition: \<open>None\<close> when it needs more.\<close>

fun index_within :: "nat \<Rightarrow> store \<Rightarrow> addr \<Rightarrow> Id \<Rightarrow> (Index \<times> bool) outcome option" where
  "index_within 0 s m ident = None"
| "index_within (Suc n) s m ident =
     (if m < length (maps s) then
        (if kind (maps s ! m) \<noteq> EMPTY_OBJECT_MAP then
           (case maps s ! m of
              IsObjectMap om \<Rightarrow>
                if ObjectMap_id om = ident then Some (Returned (ObjectMap_index om, True) s)
                else index_within n s (ObjectMap_parent om) ident
            | IsMap _ \<Rightarrow> Some Undefined)
         else Some (Returned (0, False) s))
      else Some Undefined)"

text \<open>
  Both constructors of \<^verbatim>\<open>ObjectMap\<close> take the parent as a pointer to an object that exists,
  so in a store built by them the parent of an \<^verbatim>\<open>ObjectMap\<close> is older than the \<^verbatim>\<open>ObjectMap\<close>.
\<close>

definition parents_older :: "MapObj list \<Rightarrow> bool" where
  "parents_older ms =
     list_all (\<lambda>a. case ms ! a of IsObjectMap om \<Rightarrow> ObjectMap_parent om < a | IsMap _ \<Rightarrow> True)
       [0..<length ms]"

text \<open>
  The object has all its \<^verbatim>\<open>MAX_SLOTS\<close> slots, and its map is an \<^verbatim>\<open>EmptyObjectMap\<close> or an
  \<^verbatim>\<open>ObjectMap\<close> whose slot index is not the last one of the array.
\<close>

definition has_room :: "store \<Rightarrow> addr \<Rightarrow> bool" where
  "has_room s this =
     (this < length (objects s) \<and> length (Object_slots (objects s ! this)) = MAX_SLOTS \<and>
      Cell_map (objects s ! this) < length (maps s) \<and>
      (case maps s ! Cell_map (objects s ! this) of
         IsMap mp \<Rightarrow> Map_kind mp = EMPTY_OBJECT_MAP
       | IsObjectMap om \<Rightarrow> Map_kind om = OBJECT_MAP \<and> unat (ObjectMap_index om) + 1 < MAX_SLOTS))"

section \<open>Identifier generation and the symbol table\<close>

record IdGenerator =
  IdGenerator_nextId :: Id

record SymbolTable =
  SymbolTable_idGenerator :: IdGenerator
  SymbolTable_lookupTable :: "string \<rightharpoonup> Id"

definition newId :: "IdGenerator \<Rightarrow> Id \<times> IdGenerator" where
  \<comment> \<open>\<^verbatim>\<open>return nextId_++\<close>\<close>
  "newId g = (IdGenerator_nextId g, g\<lparr>IdGenerator_nextId := IdGenerator_nextId g + 1\<rparr>)"

definition lookup :: "SymbolTable \<Rightarrow> string \<Rightarrow> Id \<times> SymbolTable" where
  "lookup t name =
     (case SymbolTable_lookupTable t name of
        Some i \<Rightarrow> (i, t)
      | None \<Rightarrow>
          (let (i, g) = newId (SymbolTable_idGenerator t) in
           (i, t\<lparr>SymbolTable_idGenerator := g,
                 SymbolTable_lookupTable := (SymbolTable_lookupTable t)(name \<mapsto> i)\<rparr>)))"

definition SymbolTable_new :: SymbolTable where
  \<comment> \<open>the default constructor: \<^verbatim>\<open>nextId_ = 0\<close> and an empty \<^verbatim>\<open>std::map\<close>\<close>
  "SymbolTable_new =
     \<lparr>SymbolTable_idGenerator = \<lparr>IdGenerator_nextId = 0\<rparr>, SymbolTable_lookupTable = Map.empty\<rparr>"

text \<open>A history of \<^verbatim>\<open>lookup\<close> calls on one table: the identifiers returned, in order, and the table left.\<close>

fun interns :: "SymbolTable \<Rightarrow> string list \<Rightarrow> Id list \<times> SymbolTable" where
  "interns t [] = ([], t)"
| "interns t (n # ns) =
     (let (i, t1) = lookup t n; (js, t2) = interns t1 ns in (i # js, t2))"

abbreviation counter :: "SymbolTable \<Rightarrow> Id" where
  "counter t \<equiv> IdGenerator_nextId (SymbolTable_idGenerator t)"

text \<open>
  \<open>interned t S\<close>: the names in the table are those of \<open>S\<close>, and the counter is their number, as a
  \<^verbatim>\<open>uint32_t\<close>. \<open>numbered t S\<close>: moreover each name has a number below their number as its
  identifier, and no two names have the same identifier.
\<close>

definition interned :: "SymbolTable \<Rightarrow> string set \<Rightarrow> bool" where
  "interned t S \<longleftrightarrow>
     finite S \<and> dom (SymbolTable_lookupTable t) = S \<and> counter t = of_nat (card S)"

definition numbered :: "SymbolTable \<Rightarrow> string set \<Rightarrow> bool" where
  "numbered t S \<longleftrightarrow>
     interned t S \<and>
     (\<forall>n\<in>S. \<exists>k<card S. SymbolTable_lookupTable t n = Some (of_nat k)) \<and>
     inj_on (SymbolTable_lookupTable t) S"

text \<open>
  \<open>many_names\<close>: \<open>2 ^ 32 + 1\<close> names, all different: the numbers from 0 to \<open>2 ^ 32\<close> written in
  binary, the lowest digit first.
\<close>

fun name_of :: "nat \<Rightarrow> string" where
  "name_of n =
     (if n < 2 then [if n = 0 then CHR ''0'' else CHR ''1'']
      else (if even n then CHR ''0'' else CHR ''1'') # name_of (n div 2))"

definition wrap :: nat where
  "wrap = 2 ^ 32"

definition many_names :: "string list" where
  "many_names = map name_of [0..<Suc wrap]"

text \<open>
  \<open>extends s s'\<close>: the map objects of \<open>s\<close> are all in \<open>s'\<close>, each at its address and with all its
  fields as in \<open>s\<close>; \<open>s'\<close> may have more.
\<close>


definition extends :: "store \<Rightarrow> store \<Rightarrow> bool" where
  "extends s s' \<longleftrightarrow> take (length (maps s)) (maps s') = maps s"

text \<open>\<open>later_store\<close>: \<open>xy_store\<close> after five more calls on its object.\<close>

definition later_store :: store where
  "later_store =
     (case run_all xy_store [Get 0 1, Set 0 1 21, NewSlot 0 9, Set 0 5 3, Get 0 7] of
        Some (Returned u s) \<Rightarrow> s | _ \<Rightarrow> xy_store)"

text \<open>
  \<open>well_shaped s this rs\<close>: the object has its \<^verbatim>\<open>MAX_SLOTS\<close> slots and the chain of an object to
  which the distinct identifiers \<open>rs\<close>, at most \<^verbatim>\<open>MAX_SLOTS\<close> of them, were added one by one.
  \<open>props s this rs\<close>: the value it then holds for each of them.
\<close>

definition well_shaped :: "store \<Rightarrow> addr \<Rightarrow> Id list \<Rightarrow> bool" where
  "well_shaped s this rs \<longleftrightarrow>
     this < length (objects s) \<and> length (Object_slots (objects s ! this)) = MAX_SLOTS \<and>
     chain (maps s) (Cell_map (objects s ! this)) (transitions rs) \<and>
     distinct rs \<and> length rs \<le> MAX_SLOTS"

definition props :: "store \<Rightarrow> addr \<Rightarrow> Id list \<Rightarrow> (Id \<rightharpoonup> Value)" where
  "props s this rs =
     (\<lambda>i. map_option (\<lambda>x. Object_slots (objects s ! this) ! unat x) (map_of (transitions rs) i))"

text \<open>
  \<open>full_store\<close>: the object of \<open>fresh_store\<close> after \<^verbatim>\<open>set\<close> with the 32 identifiers \<open>0, \<dots>, 31\<close>, the
  identifier \<open>k\<close> with the value \<open>100 + k\<close>.
\<close>

definition thirty_two :: "(Id \<times> Value) list" where
  "thirty_two = map (\<lambda>k. (of_nat k, of_nat (100 + k))) [0..<32]"

definition full_store :: store where
  "full_store = (case sets fresh_store 0 thirty_two of Some (Returned xs s) \<Rightarrow> s | _ \<Rightarrow> fresh_store)"


text \<open>
  \<open>deep_store\<close>: the object of \<open>fresh_store\<close> after 33 calls of \<^verbatim>\<open>newSlot\<close>, with the identifiers
  \<open>0, \<dots>, 32\<close>.
\<close>

definition thirty_three :: "Id list" where
  "thirty_three = map of_nat [0..<33]"

definition deep_store :: store where
  "deep_store =
     (case newSlots fresh_store 0 thirty_three of Returned xs s \<Rightarrow> s | _ \<Rightarrow> fresh_store)"

section \<open>The outcome of a lookup\<close>

declare index_loop.simps [code]

lemma bind_simps [simp]:
  "bind None f = None"
  "bind (Some (Returned a s)) f = f a s"
  "bind (Some (Thrown e s)) f = Some (Thrown e s)"
  "bind (Some Undefined) f = Some Undefined"
  by (simp_all add: bind_def)

lemma index_loop_store:
  assumes "index_loop s m i = Some r"
  shows "(\<forall>e t. r \<noteq> Thrown e t) \<and> (\<forall>x t. r = Returned x t \<longrightarrow> t = s)"
  by (rule index_loop.raw_induct
        [where P = "\<lambda>s m i r. (\<forall>e t. r \<noteq> Thrown e t) \<and> (\<forall>x t. r = Returned x t \<longrightarrow> t = s)", OF _ assms])
     (auto split: if_splits MapObj.splits)

lemma index_store:
  "index s this i = Some r \<Longrightarrow> (\<forall>e t. r \<noteq> Thrown e t) \<and> (\<forall>x t. r = Returned x t \<longrightarrow> t = s)"
  unfolding index_def using index_loop_store by (auto split: if_splits)

lemma index_cases:
  obtains "index s this i = None" | "index s this i = Some Undefined"
  | x where "index s this i = Some (Returned x s)"
proof (cases "index s this i")
  case None
  then show ?thesis using that by simp
next
  case (Some r)
  from index_store [OF Some] Some show ?thesis
    using that by (cases r) auto
qed

lemma get_cases:
  "get s this i = None \<or> get s this i = Some Undefined \<or> (\<exists>r. get s this i = Some (Returned r s))"
  by (rule index_cases [of s this i]) (auto simp: get_def slot_read_def)

text \<open>
  C10. \<^verbatim>\<open>get\<close> and the lookup \<^verbatim>\<open>index\<close> under it are read-only: whenever one of them returns, the
  store it leaves is the store it was called in, so the slot array and the map pointer of
  every object are as before and no map object was allocated; and neither of them throws.
\<close>

theorem get_read_only:
  "(index s this i = Some (Returned x s1) \<longrightarrow> s1 = s) \<and>
   (get s this i = Some (Returned r s2) \<longrightarrow> s2 = s) \<and>
   index s this i \<noteq> Some (Thrown e t) \<and> get s this i \<noteq> Some (Thrown e t)"
  using index_store [of s this i] get_cases [of s this i] by auto

theorem get_read_only_witness:
  "index xy_store 0 0 = Some (Returned (0, True) xy_store) \<and>
   get xy_store 0 0 = Some (Returned (10, True) xy_store) \<and>
   index xy_store 0 0 \<noteq> Some (Thrown runtime_error xy_store) \<and>
   get xy_store 0 0 \<noteq> Some (Thrown runtime_error xy_store)"
proof -
  have i: "index xy_store 0 0 = Some (Returned (0, True) xy_store)" by code_simp
  have g: "get xy_store 0 0 = Some (Returned (10, True) xy_store)" by code_simp
  from get_read_only [of xy_store 0 0 "(0, True)" xy_store "(10, True)" xy_store runtime_error xy_store] i g
  show ?thesis by simp
qed

section \<open>The exception of \<^verbatim>\<open>newSlot\<close>\<close>

text \<open>
  C9. \<^verbatim>\<open>newSlot\<close> throws exactly when the kind of the object's current map is neither
  \<^verbatim>\<open>EMPTY_OBJECT_MAP\<close> nor \<^verbatim>\<open>OBJECT_MAP\<close>; what it throws is the \<^verbatim>\<open>runtime_error\<close>, and the store is
  then as it was before the call: the map pointer and the slots of the object are unchanged.
\<close>

theorem newSlot_throws:
  "((\<exists>e t. newSlot s this i = Thrown e t) =
      (this < length (objects s) \<and> Cell_map (objects s ! this) < length (maps s) \<and>
       kind (maps s ! Cell_map (objects s ! this)) \<noteq> EMPTY_OBJECT_MAP \<and>
       kind (maps s ! Cell_map (objects s ! this)) \<noteq> OBJECT_MAP)) \<and>
   (newSlot s this i = Thrown e t \<longrightarrow> e = runtime_error \<and> t = s)"
  by (auto simp: newSlot_def Let_def split: MapKind.splits MapObj.splits)

theorem newSlot_throws_witness:
  "newSlot mapmap_object_store 0 7 = Thrown runtime_error mapmap_object_store \<and>
   kind (maps mapmap_object_store ! Cell_map (objects mapmap_object_store ! 0)) = MAP_MAP"
proof -
  have h: "newSlot mapmap_object_store 0 7 = Thrown runtime_error mapmap_object_store" by code_simp
  have k: "kind (maps mapmap_object_store ! Cell_map (objects mapmap_object_store ! 0)) = MAP_MAP"
    by code_simp
  from newSlot_throws [of mapmap_object_store 0 7 runtime_error mapmap_object_store] h k
  show ?thesis by simp
qed

section \<open>Interning\<close>

declare name_of.simps [simp del]

lemma name_of_nonempty: "name_of n \<noteq> []"
  by (subst name_of.simps) simp

lemma name_of_small: "n < 2 \<Longrightarrow> length (name_of n) = 1"
  by (subst name_of.simps) simp

lemma name_of_length: "2 \<le> n \<Longrightarrow> 2 \<le> length (name_of n)"
proof -
  assume "2 \<le> n"
  then have "name_of n = (if even n then CHR ''0'' else CHR ''1'') # name_of (n div 2)"
    by (subst name_of.simps) simp
  moreover have "1 \<le> length (name_of (n div 2))"
    using name_of_nonempty [of "n div 2"] by (cases "name_of (n div 2)") simp_all
  ultimately show ?thesis by simp
qed

lemma name_of_inj: "name_of m = name_of n \<Longrightarrow> m = n"
proof (induction m arbitrary: n rule: name_of.induct)
  case (1 m)
  show ?case
  proof (cases "m < 2")
    case m: True
    show ?thesis
    proof (cases "n < 2")
      case True
      with m "1.prems" show ?thesis
        by (subst (asm) name_of.simps, subst (asm) (2) name_of.simps) (auto split: if_splits)
    next
      case False
      then have "2 \<le> length (name_of n)" by (simp add: name_of_length)
      moreover have "length (name_of m) = 1" using m by (rule name_of_small)
      ultimately show ?thesis using "1.prems" by simp
    qed
  next
    case m: False
    show ?thesis
    proof (cases "n < 2")
      case True
      from m have "2 \<le> length (name_of m)" by (simp add: name_of_length)
      moreover have "length (name_of n) = 1" using True by (rule name_of_small)
      ultimately show ?thesis using "1.prems" by simp
    next
      case False
      from m False "1.prems"
      have h: "even m = even n" and t: "name_of (m div 2) = name_of (n div 2)"
        by (subst (asm) name_of.simps, subst (asm) (2) name_of.simps, auto split: if_splits)+
      from "1.IH" [OF m t] have "m div 2 = n div 2" .
      with h show ?thesis by (metis dvd_mult_div_cancel odd_two_times_div_two_succ)
    qed
  qed
qed

lemma many_names_distinct: "distinct many_names"
proof -
  have "inj_on name_of (set [0..<Suc wrap])" by (rule inj_onI) (rule name_of_inj)
  then show ?thesis unfolding many_names_def by (simp only: distinct_map distinct_upt simp_thms)
qed

lemma lookup_known:
  "SymbolTable_lookupTable t n = Some i \<Longrightarrow> lookup t n = (i, t)"
  by (simp add: lookup_def)

lemma lookup_fresh:
  "SymbolTable_lookupTable t n = None \<Longrightarrow>
   lookup t n = (counter t,
     t\<lparr>SymbolTable_idGenerator := (SymbolTable_idGenerator t)\<lparr>IdGenerator_nextId := counter t + 1\<rparr>,
       SymbolTable_lookupTable := (SymbolTable_lookupTable t)(n \<mapsto> counter t)\<rparr>)"
  by (simp add: lookup_def newId_def)

lemma lookup_entry: "SymbolTable_lookupTable (snd (lookup t n)) n = Some (fst (lookup t n))"
  by (cases "SymbolTable_lookupTable t n") (simp_all add: lookup_known lookup_fresh)

lemma lookup_keeps:
  "SymbolTable_lookupTable t m = Some i \<Longrightarrow> SymbolTable_lookupTable (snd (lookup t n)) m = Some i"
  by (cases "SymbolTable_lookupTable t n") (auto simp add: lookup_known lookup_fresh)

lemma interns_Cons:
  "interns t (n # ns) =
     (fst (lookup t n) # fst (interns (snd (lookup t n)) ns), snd (interns (snd (lookup t n)) ns))"
  by (simp add: split_beta)

lemma interns_length: "length (fst (interns t ns)) = length ns"
  by (induction ns arbitrary: t) (simp_all add: split_beta)

lemma interns_keeps:
  "SymbolTable_lookupTable t m = Some i \<Longrightarrow> SymbolTable_lookupTable (snd (interns t ns)) m = Some i"
  by (induction ns arbitrary: t) (simp_all add: split_beta lookup_keeps)

lemma interns_entry:
  "k < length ns \<Longrightarrow> SymbolTable_lookupTable (snd (interns t ns)) (ns ! k) = Some (fst (interns t ns) ! k)"
proof (induction ns arbitrary: t k)
  case Nil
  then show ?case by simp
next
  case (Cons n ns)
  show ?case
  proof (cases k)
    case 0
    from interns_keeps [OF lookup_entry [of t n], of ns] 0 show ?thesis
      by (simp add: split_beta)
  next
    case (Suc j)
    with Cons.prems Cons.IH [of j "snd (lookup t n)"] show ?thesis
      by (simp add: split_beta)
  qed
qed

lemma interned_new: "interned SymbolTable_new {}"
  by (simp add: interned_def SymbolTable_new_def)

lemma interned_lookup:
  assumes "interned t S"
  shows "interned (snd (lookup t n)) (insert n S)"
    and "n \<notin> S \<Longrightarrow> fst (lookup t n) = of_nat (card S)"
proof -
  from assms have f: "finite S" and d: "dom (SymbolTable_lookupTable t) = S"
    and c: "counter t = of_nat (card S)" by (simp_all add: interned_def)
  show "interned (snd (lookup t n)) (insert n S)"
  proof (cases "SymbolTable_lookupTable t n")
    case None
    with d have "n \<notin> S" by auto
    with None f d c show ?thesis by (simp add: lookup_fresh interned_def)
  next
    case (Some i)
    with d have "n \<in> S" by auto
    with Some assms show ?thesis by (simp add: lookup_known insert_absorb)
  qed
  show "fst (lookup t n) = of_nat (card S)" if "n \<notin> S"
  proof -
    from that d have "SymbolTable_lookupTable t n = None" by auto
    with c show ?thesis by (simp add: lookup_fresh)
  qed
qed

lemma interns_fresh:
  "interned t S \<Longrightarrow> k < length ns \<Longrightarrow> ns ! k \<notin> S \<union> set (take k ns) \<Longrightarrow>
   fst (interns t ns) ! k = of_nat (card (S \<union> set (take k ns)))"
proof (induction ns arbitrary: t S k)
  case Nil
  then show ?case by simp
next
  case (Cons n ns)
  show ?case
  proof (cases k)
    case 0
    with Cons.prems interned_lookup(2) [OF Cons.prems(1), of n] show ?thesis
      by (simp add: split_beta)
  next
    case (Suc j)
    from Cons.prems Suc have "j < length ns" "ns ! j \<notin> insert n S \<union> set (take j ns)" by auto
    from Cons.IH [OF interned_lookup(1) [OF Cons.prems(1), of n] this] Suc show ?thesis
      by (simp add: split_beta)
  qed
qed

lemma unat_of_nat_id: "k < 2 ^ 32 \<Longrightarrow> unat (of_nat k :: Id) = k"
  by (simp add: unat_of_nat)

lemma numbered_new: "numbered SymbolTable_new {}"
  by (simp add: numbered_def interned_new)

lemma numbered_lookup:
  assumes nb: "numbered t S" and room: "card (insert n S) \<le> 2 ^ 32"
  shows "numbered (snd (lookup t n)) (insert n S)"
proof (cases "n \<in> S")
  case True
  from nb have "dom (SymbolTable_lookupTable t) = S" by (simp add: numbered_def interned_def)
  with True obtain i where "SymbolTable_lookupTable t n = Some i" by auto
  with nb True show ?thesis by (simp add: lookup_known insert_absorb)
next
  case False
  from nb have it: "interned t S" and f: "finite S" and d: "dom (SymbolTable_lookupTable t) = S"
    and c: "counter t = of_nat (card S)"
    and num: "\<And>m. m \<in> S \<Longrightarrow> \<exists>k<card S. SymbolTable_lookupTable t m = Some (of_nat k)"
    and inj: "inj_on (SymbolTable_lookupTable t) S"
    by (auto simp: numbered_def interned_def)
  from False f room have small: "card S < 2 ^ 32" by simp
  from False d have none: "SymbolTable_lookupTable t n = None" by auto
  let ?tab = "(SymbolTable_lookupTable t)(n \<mapsto> of_nat (card S))"
  have tab: "SymbolTable_lookupTable (snd (lookup t n)) = ?tab"
    using none c by (simp add: lookup_fresh)
  have other: "?tab m \<noteq> Some (of_nat (card S))" if "m \<in> S" for m
  proof -
    from num [OF that] obtain k where k: "k < card S" "SymbolTable_lookupTable t m = Some (of_nat k)"
      by blast
    have "(of_nat k :: Id) \<noteq> of_nat (card S)"
    proof
      assume "(of_nat k :: Id) = of_nat (card S)"
      then have "unat (of_nat k :: Id) = unat (of_nat (card S) :: Id)" by simp
      with k(1) small show False by (simp add: unat_of_nat_id)
    qed
    with k that False show ?thesis by auto
  qed
  have 1: "\<forall>m\<in>insert n S. \<exists>k<card (insert n S). ?tab m = Some (of_nat k)"
  proof
    fix m assume m: "m \<in> insert n S"
    show "\<exists>k<card (insert n S). ?tab m = Some (of_nat k)"
    proof (cases "m = n")
      case True
      with False f show ?thesis by auto
    next
      case mn: False
      with m num [of m] obtain k where "k < card S" "SymbolTable_lookupTable t m = Some (of_nat k)"
        by blast
      with mn False f show ?thesis by (auto intro: exI [of _ k])
    qed
  qed
  have 2: "inj_on ?tab (insert n S)"
  proof (rule inj_onI)
    fix x y
    assume x: "x \<in> insert n S" and y: "y \<in> insert n S" and e: "?tab x = ?tab y"
    show "x = y"
    proof (cases "x = n")
      case xn: True
      show ?thesis
      proof (rule ccontr)
        assume "x \<noteq> y"
        with xn y have "y \<in> S" by auto
        from other [OF this] e xn show False by simp
      qed
    next
      case xn: False
      with x have xs: "x \<in> S" by simp
      show ?thesis
      proof (cases "y = n")
        case True
        from other [OF xs] e True show ?thesis by simp
      next
        case False
        with y have "y \<in> S" by simp
        with xs xn False e inj show ?thesis by (auto simp: inj_on_def)
      qed
    qed
  qed
  from interned_lookup(1) [OF it, of n] 1 2 show ?thesis
    unfolding numbered_def tab by blast
qed

lemma numbered_interns:
  "numbered t S \<Longrightarrow> card (S \<union> set ns) \<le> 2 ^ 32 \<Longrightarrow> numbered (snd (interns t ns)) (S \<union> set ns)"
proof (induction ns arbitrary: t S)
  case Nil
  then show ?case by simp
next
  case (Cons n ns)
  from Cons.prems(1) have f: "finite S" by (simp add: numbered_def interned_def)
  have "card (insert n S) \<le> card (S \<union> set (n # ns))"
    using f by (intro card_mono) auto
  with Cons.prems(2) have "card (insert n S) \<le> 2 ^ 32" by simp
  from numbered_lookup [OF Cons.prems(1) this]
  have 1: "numbered (snd (lookup t n)) (insert n S)" .
  have "insert n S \<union> set ns = S \<union> set (n # ns)" by auto
  with Cons.IH [OF 1] Cons.prems(2) show ?case by (simp add: split_beta)
qed

text \<open>
  C4, as amended. In any history of \<^verbatim>\<open>lookup\<close> calls on a new symbol table: two calls with the
  same name return the same identifier; when the history has at most \<open>2 ^ 32\<close> different names,
  two calls with different names return different identifiers; and a call with a name not
  looked up before returns the number of different names looked up before it, as a
  \<^verbatim>\<open>uint32_t\<close>: the value of the counter, which counts up by one for each new name.
\<close>

theorem lookup_interns:
  "(\<forall>j<length ns. \<forall>k<length ns.
      ns ! j = ns ! k \<longrightarrow> fst (interns SymbolTable_new ns) ! j = fst (interns SymbolTable_new ns) ! k) \<and>
   (card (set ns) \<le> 2 ^ 32 \<longrightarrow>
      (\<forall>j<length ns. \<forall>k<length ns.
         ns ! j \<noteq> ns ! k \<longrightarrow> fst (interns SymbolTable_new ns) ! j \<noteq> fst (interns SymbolTable_new ns) ! k)) \<and>
   (\<forall>k<length ns. ns ! k \<notin> set (take k ns) \<longrightarrow>
      fst (interns SymbolTable_new ns) ! k = of_nat (card (set (take k ns))))"
proof (intro conjI allI impI)
  fix j k
  assume "j < length ns" "k < length ns" "ns ! j = ns ! k"
  with interns_entry [of j ns SymbolTable_new] interns_entry [of k ns SymbolTable_new]
  show "fst (interns SymbolTable_new ns) ! j = fst (interns SymbolTable_new ns) ! k" by simp
next
  fix j k
  assume c: "card (set ns) \<le> 2 ^ 32" and j: "j < length ns" and k: "k < length ns"
    and ne: "ns ! j \<noteq> ns ! k"
  from numbered_interns [OF numbered_new, of ns] c
  have "inj_on (SymbolTable_lookupTable (snd (interns SymbolTable_new ns))) (set ns)"
    by (simp add: numbered_def)
  with j k ne have "SymbolTable_lookupTable (snd (interns SymbolTable_new ns)) (ns ! j) \<noteq>
      SymbolTable_lookupTable (snd (interns SymbolTable_new ns)) (ns ! k)"
    by (auto simp: inj_on_def)
  with interns_entry [OF j, of SymbolTable_new] interns_entry [OF k, of SymbolTable_new]
  show "fst (interns SymbolTable_new ns) ! j \<noteq> fst (interns SymbolTable_new ns) ! k" by simp
next
  fix k
  assume "k < length ns" "ns ! k \<notin> set (take k ns)"
  with interns_fresh [OF interned_new, of k ns]
  show "fst (interns SymbolTable_new ns) ! k = of_nat (card (set (take k ns)))" by simp
qed

theorem lookup_interns_witness:
  "card (set [''x'', ''y'', ''x'']) \<le> (2 :: nat) ^ 32 \<and>
   fst (interns SymbolTable_new [''x'', ''y'', ''x'']) ! 0 = fst (interns SymbolTable_new [''x'', ''y'', ''x'']) ! 2 \<and>
   fst (interns SymbolTable_new [''x'', ''y'', ''x'']) ! 0 \<noteq> fst (interns SymbolTable_new [''x'', ''y'', ''x'']) ! 1 \<and>
   fst (interns SymbolTable_new [''x'', ''y'', ''x'']) ! 1 = 1 \<and>
   fst (interns SymbolTable_new [''x'', ''y'', ''x'']) = [0, 1, 0]"
proof -
  have c: "card (set [''x'', ''y'', ''x'']) \<le> (2 :: nat) ^ 32"
    by (rule order_trans [OF card_length]) simp
  have e: "fst (interns SymbolTable_new [''x'', ''y'', ''x'']) = [0, 1, 0]"
    by (simp add: lookup_def newId_def SymbolTable_new_def)
  note t = lookup_interns [of "[''x'', ''y'', ''x'']"]
  from t c show ?thesis unfolding e by simp
qed

lemma many_names_nth: "k \<le> wrap \<Longrightarrow> many_names ! k = name_of k"
  unfolding many_names_def by (simp only: nth_map length_upt diff_zero less_Suc_eq_le nth_upt add_0)

lemma many_names_length: "length many_names = Suc wrap"
  unfolding many_names_def by (simp only: length_map length_upt diff_zero)

lemma many_names_fresh:
  assumes "k \<le> wrap"
  shows "fst (interns SymbolTable_new many_names) ! k = of_nat k"
proof -
  have k: "k < length many_names" using assms by (simp only: many_names_length less_Suc_eq_le)
  have d: "distinct (take (Suc k) many_names)" using many_names_distinct by (rule distinct_take)
  have t: "take (Suc k) many_names = take k many_names @ [many_names ! k]"
    using k by (rule take_Suc_conv_app_nth)
  from d have "many_names ! k \<notin> set (take k many_names)" unfolding t by simp
  then have "many_names ! k \<notin> {} \<union> set (take k many_names)" by simp
  from interns_fresh [OF interned_new k this]
  have "fst (interns SymbolTable_new many_names) ! k = of_nat (card (set (take k many_names)))" by simp
  moreover have "card (set (take k many_names)) = k"
    using distinct_card [OF distinct_take [OF many_names_distinct, of k]] k by simp
  ultimately show ?thesis by simp
qed

text \<open>
  The claim as the specification states it has different identifiers for any two different
  names. The counter is a \<^verbatim>\<open>uint32_t\<close>: after \<open>2 ^ 32\<close> different names it is 0 again, and the next
  new name gets the identifier 0, which the first name has.
\<close>

theorem lookup_interns_counterexample:
  "wrap = 4294967296 \<and> length many_names = Suc wrap \<and>
   many_names ! 0 = ''0'' \<and> many_names ! 0 \<noteq> many_names ! wrap \<and>
   fst (interns SymbolTable_new many_names) ! 0 = 0 \<and>
   fst (interns SymbolTable_new many_names) ! wrap = 0"
proof -
  have w: "wrap = 4294967296" by (simp add: wrap_def)
  have n0: "many_names ! 0 = ''0''" using many_names_nth [of 0] by (simp add: name_of.simps)
  have "name_of 0 \<noteq> name_of wrap" using name_of_inj [of 0 wrap] w by auto
  then have ne: "many_names ! 0 \<noteq> many_names ! wrap"
    using many_names_nth [of 0] many_names_nth [of wrap] by simp
  have i0: "fst (interns SymbolTable_new many_names) ! 0 = 0"
    using many_names_fresh [of 0] by simp
  have "(of_nat wrap :: Id) = 0" by (simp add: wrap_def)
  then have iw: "fst (interns SymbolTable_new many_names) ! wrap = 0"
    using many_names_fresh [of wrap] by simp
  from w many_names_length n0 ne i0 iw show ?thesis by blast
qed

section \<open>Map objects are written once\<close>

lemma extends_iff: "extends s s' \<longleftrightarrow> (\<exists>ext. maps s' = maps s @ ext)"
proof
  assume "extends s s'"
  then have "maps s' = maps s @ drop (length (maps s)) (maps s')"
    unfolding extends_def by (metis append_take_drop_id)
  then show "\<exists>ext. maps s' = maps s @ ext" ..
next
  assume "\<exists>ext. maps s' = maps s @ ext"
  then show "extends s s'" by (auto simp: extends_def)
qed

lemma extends_trans: "extends s s1 \<Longrightarrow> extends s1 s2 \<Longrightarrow> extends s s2"
  unfolding extends_iff by auto

lemma extends_nth: "extends s s' \<Longrightarrow> a < length (maps s) \<Longrightarrow> maps s' ! a = maps s ! a"
  unfolding extends_iff by (auto simp: nth_append)

lemma extends_length: "extends s s' \<Longrightarrow> length (maps s) \<le> length (maps s')"
  unfolding extends_iff by auto

lemma newSlot_extends:
  "newSlot s this i = Returned x s' \<Longrightarrow> \<exists>c. maps s' = maps s @ [c]"
  by (auto simp: newSlot_def Let_def split: if_splits MapKind.splits MapObj.splits)

lemma newSlot_thrown: "newSlot s this i = Thrown e s' \<Longrightarrow> s' = s"
  by (auto simp: newSlot_def Let_def split: if_splits MapKind.splits MapObj.splits)

lemma slot_write_maps: "slot_write this k v s = Some (Returned u s') \<Longrightarrow> maps s' = maps s"
  by (auto simp: slot_write_def split: if_splits)

lemma slot_write_not_thrown: "slot_write this k v s \<noteq> Some (Thrown e s')"
  by (auto simp: slot_write_def split: if_splits)

lemma set_slot_extends:
  assumes "set_slot s this i v = Some (Returned x s') \<or> set_slot s this i v = Some (Thrown e s')"
  shows "extends s s'"
proof (rule index_cases [of s this i])
  assume "index s this i = None"
  with assms show ?thesis by (simp add: set_slot_def)
next
  assume "index s this i = Some Undefined"
  with assms show ?thesis by (simp add: set_slot_def)
next
  fix l assume l: "index s this i = Some (Returned l s)"
  show ?thesis
  proof (cases "snd l")
    case True
    with assms l show ?thesis
      by (auto simp: set_slot_def slot_write_def extends_def split: if_splits)
  next
    case False
    show ?thesis
    proof (cases "newSlot s this i")
      case (Returned k s1)
      from newSlot_extends [OF Returned] obtain c where c: "maps s1 = maps s @ [c]" ..
      from assms l False Returned have "maps s' = maps s1"
        by (auto simp: set_slot_def slot_write_def split: if_splits)
      with c show ?thesis by (simp add: extends_def)
    next
      case (Thrown e1 s1)
      with assms l False newSlot_thrown [OF Thrown] show ?thesis
        by (auto simp: set_slot_def extends_def)
    next
      case Undefined
      with assms l False show ?thesis by (simp add: set_slot_def)
    qed
  qed
qed

lemma run_extends:
  assumes "run s c = Some (Returned u s') \<or> run s c = Some (Thrown e s')"
  shows "extends s s'"
proof (cases c)
  case (Get this i)
  with assms get_cases [of s this i] show ?thesis
    by (auto simp: extends_def)
next
  case (Set this i v)
  show ?thesis
  proof (cases "set_slot s this i v")
    case None
    with assms Set show ?thesis by simp
  next
    case (Some r)
    with assms Set set_slot_extends [where s = s and this = this and i = i and v = v and s' = s'] show ?thesis
      by (cases r) auto
  qed
next
  case (NewSlot this i)
  with assms newSlot_extends [of s this i _ s'] newSlot_thrown [of s this i e s'] show ?thesis
    by (cases "newSlot s this i") (auto simp: extends_def)
qed

lemma run_all_extends:
  "run_all s cs = Some (Returned u s') \<or> run_all s cs = Some (Thrown e s') \<Longrightarrow> extends s s'"
proof (induction cs arbitrary: s)
  case Nil
  then show ?case by (simp add: extends_def)
next
  case (Cons c cs)
  show ?case
  proof (cases "run s c")
    case None
    with Cons.prems show ?thesis by simp
  next
    case (Some r)
    show ?thesis
    proof (cases r)
      case (Returned u1 s1)
      with Some have 1: "extends s s1" using run_extends [of s c u1 s1] by simp
      from Cons.prems Some Returned
      have "run_all s1 cs = Some (Returned u s') \<or> run_all s1 cs = Some (Thrown e s')" by simp
      from extends_trans [OF 1 Cons.IH [OF this]] show ?thesis .
    next
      case (Thrown e1 s1)
      with Some Cons.prems run_extends [of s c u s1 e1] show ?thesis by auto
    next
      case Undefined
      with Some Cons.prems show ?thesis by simp
    qed
  qed
qed

text \<open>
  While every slot access stays inside the slot array: after any sequence of \<^verbatim>\<open>get\<close>, \<^verbatim>\<open>set\<close> and
  \<^verbatim>\<open>newSlot\<close> calls on any objects, run until the sequence ends or a call throws, every map object that existed before is still at its
  address with its kind, parent, identifier, slot index and map pointer unchanged: the
  calls only append map objects. (The setters \<open>ObjectMap_set_id\<close> and \<open>ObjectMap_set_index\<close>
  are not called by any of the three.)
\<close>

theorem shapes_never_modified:
  assumes "run_all s cs = Some (Returned u s') \<or> run_all s cs = Some (Thrown e s')"
  shows "length (maps s) \<le> length (maps s') \<and> (\<forall>a<length (maps s). maps s' ! a = maps s ! a)"
  using run_all_extends [OF assms] extends_nth [of s s'] extends_length [of s s'] by simp

theorem shapes_never_modified_witness:
  "run_all xy_store [Get 0 1, Set 0 1 21, NewSlot 0 9, Set 0 5 3, Get 0 7] = Some (Returned () later_store) \<and>
   length (maps xy_store) \<le> length (maps later_store) \<and>
   maps later_store ! 2 = maps xy_store ! 2 \<and> maps later_store ! 3 = maps xy_store ! 3 \<and>
   maps xy_store ! 3 =
     IsObjectMap \<lparr>Cell_map = 0, Map_kind = OBJECT_MAP, ObjectMap_parent = 2, ObjectMap_id = 1,
       ObjectMap_index = 1\<rparr>"
proof -
  have r: "run_all xy_store [Get 0 1, Set 0 1 21, NewSlot 0 9, Set 0 5 3, Get 0 7] = Some (Returned () later_store)"
    by code_simp
  have l: "length (maps xy_store) = 4" by code_simp
  have m: "maps xy_store ! 3 =
          IsObjectMap \<lparr>Cell_map = 0, Map_kind = OBJECT_MAP, ObjectMap_parent = 2, ObjectMap_id = 1,
            ObjectMap_index = 1\<rparr>" by code_simp
  from shapes_never_modified [of xy_store _ "()" later_store runtime_error, OF disjI1, OF r] l m r
  show ?thesis by simp
qed

section \<open>Writing a property that exists, and copies of objects\<close>

lemma index_loop_extends:
  assumes "index_loop s m i = Some r"
  shows "\<forall>s' x. extends s s' \<longrightarrow> r = Returned x s \<longrightarrow> index_loop s' m i = Some (Returned x s')"
proof (rule index_loop.raw_induct
    [where P = "\<lambda>s m i r. \<forall>s' x. extends s s' \<longrightarrow> r = Returned x s \<longrightarrow> index_loop s' m i = Some (Returned x s')",
      OF _ assms])
  fix f s m i r
  assume IH: "\<And>s m i r. f s m i = Some r \<Longrightarrow>
      \<forall>s' x. extends s s' \<longrightarrow> r = Returned x s \<longrightarrow> index_loop s' m i = Some (Returned x s')"
    and body: "(if m < length (maps s) then
        (if kind (maps s ! m) \<noteq> EMPTY_OBJECT_MAP then
           (case maps s ! m of
              IsObjectMap om \<Rightarrow>
                if ObjectMap_id om = i then Some (Returned (ObjectMap_index om, True) s)
                else f s (ObjectMap_parent om) i
            | IsMap _ \<Rightarrow> Some Undefined)
         else Some (Returned (0, False) s))
      else Some Undefined) = Some r"
  show "\<forall>s' x. extends s s' \<longrightarrow> r = Returned x s \<longrightarrow> index_loop s' m i = Some (Returned x s')"
  proof (intro allI impI)
    fix s' x
    assume ext: "extends s s'" and r: "r = Returned x s"
    from body r have m: "m < length (maps s)" by (auto split: if_splits)
    with ext have m': "m < length (maps s')" and same: "maps s' ! m = maps s ! m"
      using extends_length [OF ext] extends_nth [OF ext] by auto
    show "index_loop s' m i = Some (Returned x s')"
    proof (cases "kind (maps s ! m) = EMPTY_OBJECT_MAP")
      case True
      with body r m m' same show ?thesis by (subst index_loop.simps) auto
    next
      case False
      show ?thesis
      proof (cases "maps s ! m")
        case (IsMap mp)
        with body r m False show ?thesis by simp
      next
        case (IsObjectMap om)
        show ?thesis
        proof (cases "ObjectMap_id om = i")
          case True
          with body r m m' same False IsObjectMap show ?thesis
            by (subst index_loop.simps) auto
        next
          case ne: False
          with body m False IsObjectMap have "f s (ObjectMap_parent om) i = Some r" by simp
          from IH [OF this] ext r have "index_loop s' (ObjectMap_parent om) i = Some (Returned x s')" by simp
          with m' same False IsObjectMap ne show ?thesis
            by (subst index_loop.simps) auto
        qed
      qed
    qed
  qed
qed

lemma index_extends:
  assumes "index s this i = Some (Returned x s)" and "extends s s'"
    and "that < length (objects s')" and "Cell_map (objects s' ! that) = Cell_map (objects s ! this)"
  shows "index s' that i = Some (Returned x s')"
proof -
  from assms(1) have "index_loop s (Cell_map (objects s ! this)) i = Some (Returned x s)"
    by (auto simp: index_def split: if_splits)
  from index_loop_extends [OF this] assms(2) 
  have "index_loop s' (Cell_map (objects s ! this)) i = Some (Returned x s')" by simp
  with assms(3,4) show ?thesis by (simp add: index_def)
qed

lemma index_this: "index s this i = Some (Returned x s') \<Longrightarrow> this < length (objects s)"
  by (auto simp: index_def split: if_splits)

lemma set_slot_found:
  assumes "index s this i = Some (Returned (x, True) s)" and "unat x < MAX_SLOTS"
  shows "set_slot s this i v = Some (Returned x
           (s\<lparr>objects := (objects s)[this := (objects s ! this)
              \<lparr>Object_slots := (Object_slots (objects s ! this))[unat x := v]\<rparr>]\<rparr>))"
  using assms index_this [OF assms(1)] by (simp add: set_slot_def slot_write_def)

text \<open>
  Inside the slot array. When the lookup finds the identifier in the object's chain, at a slot index inside
  the slot array, \<^verbatim>\<open>set\<close> with \<open>v1\<close> and then \<^verbatim>\<open>set\<close> with \<open>v2\<close> both return that index; no map object
  is allocated or changed and the object's map pointer is the same before, between and after;
  the slot of that index holds \<open>v2\<close>, every other slot of the object and every other object
  is as before the two calls.
\<close>

theorem set_overwrite:
  assumes "index s this i = Some (Returned (x, True) s)" and "unat x < MAX_SLOTS"
    and "length (Object_slots (objects s ! this)) = MAX_SLOTS"
  shows "\<exists>s1 s2.
     set_slot s this i v1 = Some (Returned x s1) \<and> set_slot s1 this i v2 = Some (Returned x s2) \<and>
     maps s1 = maps s \<and> maps s2 = maps s \<and>
     Cell_map (objects s1 ! this) = Cell_map (objects s ! this) \<and>
     Cell_map (objects s2 ! this) = Cell_map (objects s ! this) \<and>
     Object_slots (objects s2 ! this) = (Object_slots (objects s ! this))[unat x := v2] \<and>
     Object_slots (objects s2 ! this) ! unat x = v2 \<and>
     (\<forall>k. k \<noteq> unat x \<longrightarrow> Object_slots (objects s2 ! this) ! k = Object_slots (objects s ! this) ! k) \<and>
     length (objects s2) = length (objects s) \<and>
     (\<forall>a. a \<noteq> this \<longrightarrow> objects s2 ! a = objects s ! a)"
proof -
  let ?upd = "\<lambda>s v. s\<lparr>objects := (objects s)[this := (objects s ! this)
              \<lparr>Object_slots := (Object_slots (objects s ! this))[unat x := v]\<rparr>]\<rparr>"
  have lt: "this < length (objects s)" using assms(1) by (rule index_this)
  have 1: "set_slot s this i v1 = Some (Returned x (?upd s v1))"
    using assms(1,2) by (rule set_slot_found)
  have "index (?upd s v1) this i = Some (Returned (x, True) (?upd s v1))"
    using assms(1) by (rule index_extends) (simp_all add: extends_def lt)
  then have 2: "set_slot (?upd s v1) this i v2 = Some (Returned x (?upd (?upd s v1) v2))"
    using assms(2) by (rule set_slot_found)
  show ?thesis
    apply (rule exI [of _ "?upd s v1"])
    apply (rule exI [of _ "?upd (?upd s v1) v2"])
    using 1 2 lt assms(2,3) by (simp add: MAX_SLOTS_def)
qed

theorem set_overwrite_witness:
  "index xy_store 0 1 = Some (Returned (1, True) xy_store) \<and> unat (1 :: Index) < MAX_SLOTS \<and>
   length (Object_slots (objects xy_store ! 0)) = MAX_SLOTS \<and>
   (\<exists>s1 s2. set_slot xy_store 0 1 5 = Some (Returned 1 s1) \<and> set_slot s1 0 1 6 = Some (Returned 1 s2) \<and>
      maps s2 = maps xy_store \<and> Object_slots (objects s2 ! 0) ! 1 = 6 \<and>
      Object_slots (objects s2 ! 0) ! 0 = Object_slots (objects xy_store ! 0) ! 0)"
proof -
  have h1: "index xy_store 0 1 = Some (Returned (1, True) xy_store)" by code_simp
  have h2: "unat (1 :: Index) < MAX_SLOTS" by (simp add: MAX_SLOTS_def)
  have h3: "length (Object_slots (objects xy_store ! 0)) = MAX_SLOTS" by code_simp
  from set_overwrite [OF h1 h2 h3, of 5 6] obtain s1 s2 where
    "set_slot xy_store 0 1 5 = Some (Returned 1 s1)" "set_slot s1 0 1 6 = Some (Returned 1 s2)"
    "maps s2 = maps xy_store" "Object_slots (objects s2 ! 0) ! unat (1 :: Index) = 6"
    "\<forall>k. k \<noteq> unat (1 :: Index) \<longrightarrow> Object_slots (objects s2 ! 0) ! k = Object_slots (objects xy_store ! 0) ! k"
    by blast
  then show ?thesis using h1 h2 h3 by auto
qed

lemma Object_of_Object_copy:
  assumes "a < length (objects s)" and "length (Object_slots (objects s ! a)) = MAX_SLOTS"
  shows "Object_of_Object a s = Returned (length (objects s)) (s\<lparr>objects := objects s @ [objects s ! a]\<rparr>)"
  using assms by (simp add: Object_of_Object_def Let_def)

lemma newSlot_room:
  assumes "has_room s this"
  shows "\<exists>k om. k < MAX_SLOTS \<and>
           newSlot s this i = Returned k
             (s\<lparr>maps := maps s @ [IsObjectMap om],
                objects := (objects s)[this := (objects s ! this)\<lparr>Cell_map := length (maps s)\<rparr>]\<rparr>) \<and>
           ObjectMap_parent om = Cell_map (objects s ! this) \<and> ObjectMap_id om = i \<and>
           Map_kind om = OBJECT_MAP \<and> unat (ObjectMap_index om) = k"
proof (cases "maps s ! Cell_map (objects s ! this)")
  case (IsMap mp)
  with assms show ?thesis
    by (auto simp: has_room_def newSlot_def Let_def ObjectMap_of_EmptyObjectMap_def MAX_SLOTS_def)
next
  case (IsObjectMap pom)
  with assms have "unat (ObjectMap_index pom) + 1 < 32" by (simp add: has_room_def MAX_SLOTS_def)
  then have "unat (ObjectMap_index pom + 1) < 32" by (simp add: unat_word_ariths)
  with IsObjectMap assms show ?thesis
    by (auto simp: has_room_def newSlot_def Let_def ObjectMap_of_ObjectMap_def MAX_SLOTS_def)
qed

text \<open>
  With room for one more slot. \<^verbatim>\<open>Object(Object&)\<close> on an object \<open>A\<close> makes an object \<open>B\<close> equal to \<open>A\<close> field by field: the same
  map pointer and the same slots. When \<open>A\<close> has room for one more property and the identifier
  is not in the chain, \<^verbatim>\<open>set\<close> on \<open>B\<close> returns, and afterwards \<open>A\<close> has the map pointer and the slots it
  had, the map objects that existed are unchanged, exactly one map object was allocated, \<open>B\<close>
  points to it, its parent is the map of \<open>A\<close> and its identifier the new one, and the slots of
  \<open>B\<close> are those of \<open>A\<close> with the value written at the new slot index.
\<close>

theorem clone_independence:
  assumes room: "has_room s a" and absent: "index s a i = Some (Returned (0, False) s)"
  shows "\<exists>s1 s2 k om.
     Object_of_Object a s = Returned (length (objects s)) s1 \<and>
     maps s1 = maps s \<and> objects s1 ! length (objects s) = objects s ! a \<and> objects s1 ! a = objects s ! a \<and>
     set_slot s1 (length (objects s)) i v = Some (Returned k s2) \<and>
     objects s2 ! a = objects s ! a \<and>
     length (maps s2) = Suc (length (maps s)) \<and> (\<forall>m<length (maps s). maps s2 ! m = maps s ! m) \<and>
     Cell_map (objects s2 ! length (objects s)) = length (maps s) \<and>
     maps s2 ! length (maps s) = IsObjectMap om \<and>
     ObjectMap_parent om = Cell_map (objects s ! a) \<and> ObjectMap_id om = i \<and> ObjectMap_index om = k \<and>
     Object_slots (objects s2 ! length (objects s)) = (Object_slots (objects s ! a))[unat k := v]"
proof -
  let ?b = "length (objects s)"
  let ?s1 = "s\<lparr>objects := objects s @ [objects s ! a]\<rparr>"
  from room have a: "a < length (objects s)" and len: "length (Object_slots (objects s ! a)) = MAX_SLOTS"
    by (simp_all add: has_room_def)
  have copy: "Object_of_Object a s = Returned ?b ?s1"
    using a len by (rule Object_of_Object_copy)
  have idx: "index ?s1 ?b i = Some (Returned (0, False) ?s1)"
    using absent by (rule index_extends) (simp_all add: extends_def)
  have room1: "has_room ?s1 ?b"
    using room by (simp add: has_room_def)
  from newSlot_room [OF room1, of i] obtain k om where
    k: "k < MAX_SLOTS" and
    new: "newSlot ?s1 ?b i = Returned k
             (?s1\<lparr>maps := maps ?s1 @ [IsObjectMap om],
                objects := (objects ?s1)[?b := (objects ?s1 ! ?b)\<lparr>Cell_map := length (maps ?s1)\<rparr>]\<rparr>)" and
    om: "ObjectMap_parent om = Cell_map (objects ?s1 ! ?b)" "ObjectMap_id om = i" "unat (ObjectMap_index om) = k"
    by blast
  let ?s2 = "?s1\<lparr>maps := maps ?s1 @ [IsObjectMap om],
                objects := (objects ?s1)[?b := (objects ?s1 ! ?b)\<lparr>Cell_map := length (maps ?s1)\<rparr>]\<rparr>"
  let ?s3 = "?s2\<lparr>objects := (objects ?s2)[?b := (objects ?s2 ! ?b)
        \<lparr>Object_slots := (Object_slots (objects ?s2 ! ?b))[k := v]\<rparr>]\<rparr>"
  have kk: "of_nat k = ObjectMap_index om" unfolding om(3) [symmetric] by simp
  have set: "set_slot ?s1 ?b i v = Some (Returned (ObjectMap_index om) ?s3)"
    using idx new k kk by (simp add: set_slot_def slot_write_def)
  show ?thesis
    apply (rule exI [of _ ?s1])
    apply (rule exI [of _ ?s3])
    apply (rule exI [of _ "ObjectMap_index om"])
    apply (rule exI [of _ om])
    using copy set a om by (simp add: nth_append)
qed

theorem clone_independence_witness:
  "has_room xy_store 0 \<and> index xy_store 0 7 = Some (Returned (0, False) xy_store) \<and>
   (\<exists>s1 s2 k. Object_of_Object 0 xy_store = Returned 1 s1 \<and>
      objects s1 ! 1 = objects xy_store ! 0 \<and>
      set_slot s1 1 7 9 = Some (Returned k s2) \<and>
      objects s2 ! 0 = objects xy_store ! 0 \<and> Cell_map (objects s2 ! 1) = 4 \<and> length (maps s2) = 5)"
proof -
  have h1: "has_room xy_store 0" by code_simp
  have h2: "index xy_store 0 7 = Some (Returned (0, False) xy_store)" by code_simp
  have l: "length (objects xy_store) = 1" "length (maps xy_store) = 4" by code_simp+
  from clone_independence [OF h1 h2, of 9] obtain s1 s2 k where
    "Object_of_Object 0 xy_store = Returned (length (objects xy_store)) s1"
    "objects s1 ! length (objects xy_store) = objects xy_store ! 0"
    "set_slot s1 (length (objects xy_store)) 7 9 = Some (Returned k s2)"
    "objects s2 ! 0 = objects xy_store ! 0"
    "Cell_map (objects s2 ! length (objects xy_store)) = length (maps xy_store)"
    "length (maps s2) = Suc (length (maps xy_store))"
    by blast
  then show ?thesis using h1 h2 unfolding l by auto
qed

section \<open>Chains built by \<^verbatim>\<open>newSlot\<close>\<close>

lemma chain_append: "chain ms m l \<Longrightarrow> chain (ms @ ext) m l"
proof (induction l arbitrary: m)
  case Nil
  then show ?case by (simp add: nth_append)
next
  case (Cons e l)
  then show ?case by (auto simp: nth_append split: MapObj.splits)
qed

lemma index_loop_chain:
  "chain (maps s) m l \<Longrightarrow>
   index_loop s m i =
     Some (case map_of l i of None \<Rightarrow> Returned (0, False) s | Some x \<Rightarrow> Returned (x, True) s)"
proof (induction l arbitrary: m)
  case Nil
  then show ?case by (subst index_loop.simps) simp
next
  case (Cons e l)
  from Cons.prems obtain om where m: "m < length (maps s)" and om: "maps s ! m = IsObjectMap om"
    and k: "Map_kind om = OBJECT_MAP" and e: "ObjectMap_id om = fst e" "ObjectMap_index om = snd e"
    and rest: "chain (maps s) (ObjectMap_parent om) l"
    by (auto split: MapObj.splits)
  show ?case
  proof (cases "fst e = i")
    case True
    with m om k e show ?thesis by (subst index_loop.simps) (cases e, simp)
  next
    case False
    with m om k e Cons.IH [OF rest] show ?thesis by (subst index_loop.simps) (cases e, simp)
  qed
qed

lemma transitions_length [simp]: "length (transitions rs) = length rs"
  by (induction rs) simp_all

lemma transitions_fst [simp]: "map fst (transitions rs) = rs"
  by (induction rs) simp_all

lemma newSlot_chain:
  assumes lt: "this < length (objects s)"
    and ch: "chain (maps s) (Cell_map (objects s ! this)) (transitions rs)"
  shows "\<exists>om. newSlot s this i = Returned (unat (of_nat (length rs) :: Index))
           (s\<lparr>maps := maps s @ [IsObjectMap om],
              objects := (objects s)[this := (objects s ! this)\<lparr>Cell_map := length (maps s)\<rparr>]\<rparr>) \<and>
         chain (maps s @ [IsObjectMap om]) (length (maps s)) (transitions (i # rs))"
proof (cases rs)
  case Nil
  with ch have m: "Cell_map (objects s ! this) < length (maps s)"
    and k: "kind (maps s ! Cell_map (objects s ! this)) = EMPTY_OBJECT_MAP" by simp_all
  let ?om = "ObjectMap_of_EmptyObjectMap (Cell_map (objects s ! this)) (maps s ! Cell_map (objects s ! this)) i"
  have "newSlot s this i = Returned 0
           (s\<lparr>maps := maps s @ [IsObjectMap ?om],
              objects := (objects s)[this := (objects s ! this)\<lparr>Cell_map := length (maps s)\<rparr>]\<rparr>)"
    using lt m k by (simp add: newSlot_def Let_def ObjectMap_of_EmptyObjectMap_def)
  moreover have "chain (maps s @ [IsObjectMap ?om]) (length (maps s)) (transitions [i])"
    using m k by (simp add: ObjectMap_of_EmptyObjectMap_def nth_append)
  ultimately show ?thesis using Nil by auto
next
  case (Cons j rs')
  with ch obtain pom where m: "Cell_map (objects s ! this) < length (maps s)"
    and p: "maps s ! Cell_map (objects s ! this) = IsObjectMap pom"
    and k: "Map_kind pom = OBJECT_MAP" and x: "ObjectMap_index pom = of_nat (length rs')"
    by (auto split: MapObj.splits)
  let ?om = "ObjectMap_of_ObjectMap (Cell_map (objects s ! this)) pom i"
  have ix: "ObjectMap_index ?om = of_nat (length rs)"
    using x Cons by (simp add: ObjectMap_of_ObjectMap_def)
  have "newSlot s this i = Returned (unat (of_nat (length rs) :: Index))
           (s\<lparr>maps := maps s @ [IsObjectMap ?om],
              objects := (objects s)[this := (objects s ! this)\<lparr>Cell_map := length (maps s)\<rparr>]\<rparr>)"
    using lt m p k ix by (simp add: newSlot_def Let_def)
  moreover have "chain (maps s @ [IsObjectMap ?om]) (length (maps s)) (transitions (i # rs))"
    using chain_append [OF ch, of "[IsObjectMap ?om]"] ix
    by (simp add: ObjectMap_of_ObjectMap_def)
  ultimately show ?thesis by blast
qed

lemma newSlots_chain:
  "this < length (objects s) \<Longrightarrow> chain (maps s) (Cell_map (objects s ! this)) (transitions rs) \<Longrightarrow>
   \<exists>s'. newSlots s this ids =
           Returned (map (\<lambda>k. unat (of_nat k :: Index)) [length rs..<length rs + length ids]) s' \<and>
        this < length (objects s') \<and>
        chain (maps s') (Cell_map (objects s' ! this)) (transitions (rev ids @ rs))"
proof (induction ids arbitrary: s rs)
  case Nil
  then show ?case by simp
next
  case (Cons i ids)
  from newSlot_chain [OF Cons.prems, of i] obtain om where
    new: "newSlot s this i = Returned (unat (of_nat (length rs) :: Index))
           (s\<lparr>maps := maps s @ [IsObjectMap om],
              objects := (objects s)[this := (objects s ! this)\<lparr>Cell_map := length (maps s)\<rparr>]\<rparr>)"
    and ch: "chain (maps s @ [IsObjectMap om]) (length (maps s)) (transitions (i # rs))"
    by blast
  let ?s1 = "s\<lparr>maps := maps s @ [IsObjectMap om],
              objects := (objects s)[this := (objects s ! this)\<lparr>Cell_map := length (maps s)\<rparr>]\<rparr>"
  have lt1: "this < length (objects ?s1)" using Cons.prems(1) by simp
  have ch1: "chain (maps ?s1) (Cell_map (objects ?s1 ! this)) (transitions (i # rs))"
    using ch Cons.prems(1) by simp
  from Cons.IH [OF lt1 ch1] obtain s' where
    r: "newSlots ?s1 this ids =
           Returned (map (\<lambda>k. unat (of_nat k :: Index)) [length (i # rs)..<length (i # rs) + length ids]) s'"
    and lt': "this < length (objects s')"
    and ch': "chain (maps s') (Cell_map (objects s' ! this)) (transitions (rev ids @ i # rs))"
    by blast
  have "[length rs..<length rs + length (i # ids)] = length rs # [length (i # rs)..<length (i # rs) + length ids]"
    by (subst upt_rec) simp
  with new r lt' ch' show ?case by simp
qed

lemma transitions_snd:
  "length rs \<le> 256 \<Longrightarrow> map (\<lambda>e. unat (snd e)) (transitions rs) = rev [0..<length rs]"
proof (induction rs)
  case Nil
  then show ?case by simp
next
  case (Cons i rs)
  then have "unat (of_nat (length rs) :: Index) = length rs"
    by (simp add: unat_of_nat)
  with Cons show ?case by simp
qed

text \<open>
  Up to depth 256. For an object whose map is an \<^verbatim>\<open>EmptyObjectMap\<close>, and at most 256 identifiers added
  by \<^verbatim>\<open>newSlot\<close> one after the other: every call returns, the slot indices returned are
  \<open>0, 1, \<dots>, depth - 1\<close> in this order, and the chain of the object then lists the identifiers,
  the last one added first, with exactly these slot indices: each \<^verbatim>\<open>ObjectMap\<close> has the slot index
  of its parent plus one, and the one whose parent is the \<^verbatim>\<open>EmptyObjectMap\<close> has 0.
\<close>

theorem slot_contiguity:
  assumes "this < length (objects s)"
    and "Cell_map (objects s ! this) < length (maps s)"
    and "kind (maps s ! Cell_map (objects s ! this)) = EMPTY_OBJECT_MAP"
    and "length ids \<le> 256"
  shows "\<exists>s'. newSlots s this ids = Returned [0..<length ids] s' \<and>
           chain (maps s') (Cell_map (objects s' ! this)) (transitions (rev ids)) \<and>
           map fst (transitions (rev ids)) = rev ids \<and>
           map (\<lambda>e. unat (snd e)) (transitions (rev ids)) = rev [0..<length ids]"
proof -
  have "chain (maps s) (Cell_map (objects s ! this)) (transitions [])"
    using assms(2,3) by simp
  from newSlots_chain [OF assms(1) this, of ids] obtain s' where
    r: "newSlots s this ids = Returned (map (\<lambda>k. unat (of_nat k :: Index)) [0..<length ids]) s'"
    and ch: "chain (maps s') (Cell_map (objects s' ! this)) (transitions (rev ids))"
    by auto
  have "map (\<lambda>k. unat (of_nat k :: Index)) [0..<length ids] = [0..<length ids]"
    using assms(4) by (intro map_idI) (simp add: unat_of_nat)
  with r ch transitions_snd [of "rev ids"] assms(4) show ?thesis by simp
qed

theorem slot_contiguity_witness:
  "0 < length (objects fresh_store) \<and>
   Cell_map (objects fresh_store ! 0) < length (maps fresh_store) \<and>
   kind (maps fresh_store ! Cell_map (objects fresh_store ! 0)) = EMPTY_OBJECT_MAP \<and>
   length [5, 9, 4 :: Id] \<le> 256 \<and>
   (\<exists>s'. newSlots fresh_store 0 [5, 9, 4] = Returned [0, 1, 2] s' \<and>
      chain (maps s') (Cell_map (objects s' ! 0)) [(4, 2), (9, 1), (5, 0)])"
proof -
  have h1: "0 < length (objects fresh_store)" by code_simp
  have h2: "Cell_map (objects fresh_store ! 0) < length (maps fresh_store)" by code_simp
  have h3: "kind (maps fresh_store ! Cell_map (objects fresh_store ! 0)) = EMPTY_OBJECT_MAP" by code_simp
  have h4: "length [5, 9, 4 :: Id] \<le> 256" by simp
  have u: "[0..<3] = [0, 1, 2 :: nat]" by (simp add: upt_rec)
  from slot_contiguity [OF h1 h2 h3 h4] obtain s' where
    "newSlots fresh_store 0 [5, 9, 4] = Returned [0..<length [5, 9, 4 :: Id]] s'"
    "chain (maps s') (Cell_map (objects s' ! 0)) (transitions (rev [5, 9, 4]))"
    by blast
  then have "newSlots fresh_store 0 [5, 9, 4] = Returned [0, 1, 2] s' \<and>
      chain (maps s') (Cell_map (objects s' ! 0)) [(4, 2), (9, 1), (5, 0)]"
    by (simp add: u)
  with h1 h2 h3 h4 show ?thesis by blast
qed

text \<open>
  C3. The slot indices along a chain built by \<^verbatim>\<open>newSlot\<close> are to be \<open>0, 1, \<dots>, depth - 1\<close>. \<^verbatim>\<open>newSlot\<close>
  compares nothing with \<^verbatim>\<open>MAX_SLOTS\<close>, so a chain grows as far as it is asked to,
  and the slot index is a \<^verbatim>\<open>uint8_t\<close>: 257 calls on a fresh object, each with an identifier of its
  own, all return, and the last one returns the slot index 0, not 256.
\<close>

theorem slot_index_wraps:
  "result (newSlots fresh_store 0 (map of_nat [0..<257])) \<noteq> Some [0..<257] \<and>
   map_option last (result (newSlots fresh_store 0 (map of_nat [0..<257]))) = Some 0"
proof -
  have lt: "0 < length (objects fresh_store)" by code_simp
  have "chain (maps fresh_store) (Cell_map (objects fresh_store ! 0)) (transitions [])" by code_simp
  from newSlots_chain [OF lt this, of "map of_nat [0..<257]"] obtain s' where
    r: "newSlots fresh_store 0 (map of_nat [0..<257]) =
          Returned (map (\<lambda>k. unat (of_nat k :: Index)) [0..<257]) s'"
    by auto
  have l: "last (map (\<lambda>k. unat (of_nat k :: Index)) [0..<257]) = 0"
    by (simp add: last_map)
  have "last [0..<257::nat] = 256" by simp
  with l have "map (\<lambda>k. unat (of_nat k :: Index)) [0..<257] \<noteq> [0..<257]"
    by (metis zero_neq_numeral)
  with r l show ?thesis by simp
qed

section \<open>Reading back what was written\<close>

lemma transitions_bound:
  "map_of (transitions rs) j = Some y \<Longrightarrow> length rs \<le> 256 \<Longrightarrow> unat y < length rs"
proof (induction rs)
  case Nil
  then show ?case by simp
next
  case (Cons i rs)
  show ?case
  proof (cases "j = i")
    case True
    with Cons.prems show ?thesis by (auto simp: unat_of_nat)
  next
    case False
    with Cons show ?thesis by (simp add: less_Suc_eq)
  qed
qed

lemma transitions_None: "map_of (transitions rs) j = None \<longleftrightarrow> j \<notin> set rs"
  by (induction rs) auto

lemma transitions_inj:
  "distinct rs \<Longrightarrow> length rs \<le> 256 \<Longrightarrow>
   map_of (transitions rs) j = Some y \<Longrightarrow> map_of (transitions rs) k = Some y \<Longrightarrow> j = k"
proof (induction rs)
  case Nil
  then show ?case by simp
next
  case (Cons i rs)
  have len: "length rs \<le> 256" "length rs < 256" using Cons.prems(2) by simp_all
  have top: "unat (of_nat (length rs) :: Index) = length rs"
    using len(2) by (simp add: unat_of_nat)
  show ?case
  proof (cases "j = i")
    case ji: True
    show ?thesis
    proof (cases "k = i")
      case True
      with ji show ?thesis by simp
    next
      case False
      with ji Cons.prems have "map_of (transitions rs) k = Some (of_nat (length rs))" by simp
      from transitions_bound [OF this len(1)] top show ?thesis by simp
    qed
  next
    case ji: False
    show ?thesis
    proof (cases "k = i")
      case True
      with ji Cons.prems have "map_of (transitions rs) j = Some (of_nat (length rs))" by simp
      from transitions_bound [OF this len(1)] top show ?thesis by simp
    next
      case False
      with ji Cons.prems Cons.IH len show ?thesis by simp
    qed
  qed
qed

lemma index_well_shaped:
  assumes "well_shaped s this rs"
  shows "index s this i =
     Some (case map_of (transitions rs) i of None \<Rightarrow> Returned (0, False) s | Some x \<Rightarrow> Returned (x, True) s)"
  using assms index_loop_chain [of s "Cell_map (objects s ! this)" "transitions rs" i]
  by (simp add: well_shaped_def index_def)

lemma get_props:
  assumes ws: "well_shaped s this rs"
  shows "get s this i =
     Some (Returned (case props s this rs i of Some v \<Rightarrow> (v, True) | None \<Rightarrow> (0, False)) s)"
proof (cases "map_of (transitions rs) i")
  case None
  with index_well_shaped [OF ws, of i] show ?thesis by (simp add: get_def props_def)
next
  case (Some x)
  from ws have "length rs \<le> 256" by (simp add: well_shaped_def MAX_SLOTS_def)
  from transitions_bound [OF Some this] ws have "unat x < MAX_SLOTS" "this < length (objects s)"
    by (simp_all add: well_shaped_def)
  with Some index_well_shaped [OF ws, of i] show ?thesis
    by (simp add: get_def props_def slot_read_def)
qed

lemma set_slot_present:
  assumes ws: "well_shaped s this rs" and i: "i \<in> set rs"
  shows "\<exists>x s'. set_slot s this i v = Some (Returned x s') \<and> well_shaped s' this rs \<and>
           props s' this rs = (props s this rs)(i \<mapsto> v)"
proof -
  from i obtain x where x: "map_of (transitions rs) i = Some x"
    using transitions_None [of rs i] by auto
  from ws have len: "length rs \<le> 256" and d: "distinct rs"
    and sl: "length (Object_slots (objects s ! this)) = MAX_SLOTS" and lt: "this < length (objects s)"
    by (simp_all add: well_shaped_def MAX_SLOTS_def)
  from transitions_bound [OF x len] ws have xb: "unat x < MAX_SLOTS" by (simp add: well_shaped_def)
  let ?s' = "s\<lparr>objects := (objects s)[this := (objects s ! this)
              \<lparr>Object_slots := (Object_slots (objects s ! this))[unat x := v]\<rparr>]\<rparr>"
  have idx: "index s this i = Some (Returned (x, True) s)"
    using index_well_shaped [OF ws, of i] x by simp
  have 1: "set_slot s this i v = Some (Returned x ?s')"
    using idx xb by (rule set_slot_found)
  have 2: "well_shaped ?s' this rs" using ws by (simp add: well_shaped_def)
  have 3: "props ?s' this rs = (props s this rs)(i \<mapsto> v)"
  proof
    fix j
    show "props ?s' this rs j = ((props s this rs)(i \<mapsto> v)) j"
    proof (cases "j = i")
      case True
      with x lt sl xb show ?thesis by (simp add: props_def)
    next
      case False
      show ?thesis
      proof (cases "map_of (transitions rs) j")
        case None
        with False show ?thesis by (simp add: props_def)
      next
        case (Some y)
        with transitions_inj [OF d len Some, of i] x False have "y \<noteq> x" by auto
        then have "unat y \<noteq> unat x" by (simp add: word_unat_eq_iff)
        with Some False lt show ?thesis by (simp add: props_def)
      qed
    qed
  qed
  from 1 2 3 show ?thesis by blast
qed

lemma set_slot_absent:
  assumes ws: "well_shaped s this rs" and i: "i \<notin> set rs" and room: "length rs < MAX_SLOTS"
  shows "\<exists>s'. set_slot s this i v = Some (Returned (of_nat (length rs)) s') \<and>
           well_shaped s' this (i # rs) \<and>
           props s' this (i # rs) = (props s this rs)(i \<mapsto> v)"
proof -
  from ws have len: "length rs \<le> 256" and d: "distinct rs"
    and sl: "length (Object_slots (objects s ! this)) = MAX_SLOTS" and lt: "this < length (objects s)"
    and ch: "chain (maps s) (Cell_map (objects s ! this)) (transitions rs)"
    by (simp_all add: well_shaped_def MAX_SLOTS_def)
  have top: "unat (of_nat (length rs) :: Index) = length rs"
    using room by (simp add: unat_of_nat MAX_SLOTS_def)
  have idx: "index s this i = Some (Returned (0, False) s)"
    using index_well_shaped [OF ws, of i] i transitions_None [of rs i] by simp
  from newSlot_chain [OF lt ch, of i] obtain om where
    new: "newSlot s this i = Returned (length rs)
           (s\<lparr>maps := maps s @ [IsObjectMap om],
              objects := (objects s)[this := (objects s ! this)\<lparr>Cell_map := length (maps s)\<rparr>]\<rparr>)"
    and ch1: "chain (maps s @ [IsObjectMap om]) (length (maps s)) (transitions (i # rs))"
    unfolding top by blast
  let ?s' = "s\<lparr>maps := maps s @ [IsObjectMap om],
              objects := (objects s)[this := (objects s ! this)
                \<lparr>Cell_map := length (maps s), Object_slots := (Object_slots (objects s ! this))[length rs := v]\<rparr>]\<rparr>"
  have 1: "set_slot s this i v = Some (Returned (of_nat (length rs)) ?s')"
    using idx new lt room by (simp add: set_slot_def slot_write_def)
  have 2: "well_shaped ?s' this (i # rs)"
    using ws i room ch1 by (simp add: well_shaped_def)
  have 3: "props ?s' this (i # rs) = (props s this rs)(i \<mapsto> v)"
  proof
    fix j
    show "props ?s' this (i # rs) j = ((props s this rs)(i \<mapsto> v)) j"
    proof (cases "j = i")
      case True
      with lt sl room top show ?thesis by (simp add: props_def)
    next
      case False
      show ?thesis
      proof (cases "map_of (transitions rs) j")
        case None
        with False show ?thesis by (simp add: props_def)
      next
        case (Some y)
        from transitions_bound [OF Some len] have "unat y \<noteq> length rs" by simp
        with Some False lt show ?thesis by (simp add: props_def)
      qed
    qed
  qed
  from 1 2 3 show ?thesis by blast
qed

lemma set_slot_full:
  assumes ws: "well_shaped s this rs" and i: "i \<notin> set rs" and full: "length rs = MAX_SLOTS"
  shows "set_slot s this i v = Some Undefined \<and> result (newSlot s this i) = Some MAX_SLOTS"
proof -
  from ws have lt: "this < length (objects s)"
    and ch: "chain (maps s) (Cell_map (objects s ! this)) (transitions rs)"
    by (simp_all add: well_shaped_def)
  have top: "unat (of_nat (length rs) :: Index) = MAX_SLOTS"
    using full by (simp add: unat_of_nat MAX_SLOTS_def)
  have idx: "index s this i = Some (Returned (0, False) s)"
    using index_well_shaped [OF ws, of i] i transitions_None [of rs i] by simp
  from newSlot_chain [OF lt ch, of i] obtain s1 where new: "newSlot s this i = Returned MAX_SLOTS s1"
    unfolding top by blast
  with idx show ?thesis by (simp add: set_slot_def slot_write_def)
qed

lemma well_shaped_fresh:
  assumes "r < length (maps s)" and "kind (maps s ! r) = EMPTY_OBJECT_MAP"
  shows "Object_of_map r s = Returned (length (objects s))
           (s\<lparr>objects := objects s @ [\<lparr>Cell_map = r, Object_slots = replicate MAX_SLOTS 0\<rparr>]\<rparr>)"
    and "well_shaped (s\<lparr>objects := objects s @ [\<lparr>Cell_map = r, Object_slots = replicate MAX_SLOTS 0\<rparr>]\<rparr>)
           (length (objects s)) []"
    and "props (s\<lparr>objects := objects s @ [\<lparr>Cell_map = r, Object_slots = replicate MAX_SLOTS 0\<rparr>]\<rparr>)
           (length (objects s)) [] = Map.empty"
  using assms by (simp_all add: Object_of_map_def well_shaped_def props_def)

lemma sets_props:
  "well_shaped s this rs \<Longrightarrow> card (set rs \<union> fst ` set ps) \<le> MAX_SLOTS \<Longrightarrow>
   \<exists>xs s' rs'. sets s this ps = Some (Returned xs s') \<and> well_shaped s' this rs' \<and>
      props s' this rs' = props s this rs ++ map_of (rev ps)"
proof (induction ps arbitrary: s rs)
  case Nil
  then show ?case by auto
next
  case (Cons p ps)
  obtain i v where p: "p = (i, v)" by (cases p)
  have "\<exists>x s1 rs1. set_slot s this i v = Some (Returned x s1) \<and> well_shaped s1 this rs1 \<and>
          props s1 this rs1 = (props s this rs)(i \<mapsto> v) \<and> set rs1 = insert i (set rs)"
  proof (cases "i \<in> set rs")
    case True
    from set_slot_present [OF Cons.prems(1) True, of v] True show ?thesis
      by (auto simp: insert_absorb)
  next
    case False
    from Cons.prems(1) have d: "distinct rs" by (simp add: well_shaped_def)
    have "card (insert i (set rs)) \<le> card (set rs \<union> fst ` set (p # ps))"
      by (rule card_mono) (auto simp: p)
    with False d Cons.prems(2) have "length rs < MAX_SLOTS"
      by (simp add: distinct_card)
    from set_slot_absent [OF Cons.prems(1) False this, of v] show ?thesis
      by (metis list.simps(15))
  qed
  then obtain x s1 rs1 where 1: "set_slot s this i v = Some (Returned x s1)"
    and ws1: "well_shaped s1 this rs1" and pr1: "props s1 this rs1 = (props s this rs)(i \<mapsto> v)"
    and rs1: "set rs1 = insert i (set rs)" by blast
  have "set rs1 \<union> fst ` set ps = set rs \<union> fst ` set (p # ps)" using rs1 p by auto
  with Cons.prems(2) have "card (set rs1 \<union> fst ` set ps) \<le> MAX_SLOTS" by simp
  from Cons.IH [OF ws1 this] obtain xs s' rs' where 2: "sets s1 this ps = Some (Returned xs s')"
    and ws': "well_shaped s' this rs'" and pr': "props s' this rs' = props s1 this rs1 ++ map_of (rev ps)"
    by blast
  have "props s' this rs' = props s this rs ++ map_of (rev (p # ps))"
    unfolding pr' pr1 p by (simp add: map_add_upd_left)
  with 1 2 ws' p show ?case by auto
qed

lemma sets_distinct:
  "well_shaped s this rs \<Longrightarrow> distinct (map fst ps) \<Longrightarrow> set (map fst ps) \<inter> set rs = {} \<Longrightarrow>
   length rs + length ps \<le> MAX_SLOTS \<Longrightarrow>
   \<exists>s'. sets s this ps = Some (Returned (map of_nat [length rs..<length rs + length ps]) s') \<and>
      well_shaped s' this (rev (map fst ps) @ rs)"
proof (induction ps arbitrary: s rs)
  case Nil
  then show ?case by simp
next
  case (Cons p ps)
  from Cons.prems have i: "fst p \<notin> set rs" and room: "length rs < MAX_SLOTS" by auto
  from set_slot_absent [OF Cons.prems(1) i room, of "snd p"] obtain s1 where
    1: "set_slot s this (fst p) (snd p) = Some (Returned (of_nat (length rs)) s1)"
    and ws1: "well_shaped s1 this (fst p # rs)" by blast
  from Cons.prems have "distinct (map fst ps)" "set (map fst ps) \<inter> set (fst p # rs) = {}"
    "length (fst p # rs) + length ps \<le> MAX_SLOTS" by auto
  from Cons.IH [OF ws1 this] obtain s' where
    2: "sets s1 this ps =
          Some (Returned (map of_nat [length (fst p # rs)..<length (fst p # rs) + length ps]) s')"
    and ws': "well_shaped s' this (rev (map fst ps) @ fst p # rs)" by blast
  have "[length rs..<length rs + length (p # ps)] =
      length rs # [length (fst p # rs)..<length (fst p # rs) + length ps]"
    by (subst upt_rec) simp
  with 1 2 ws' show ?case by simp
qed

text \<open>
  C2. An object built by \<^verbatim>\<open>Object(EmptyObjectMap*)\<close>, then \<^verbatim>\<open>set\<close> called for each pair of a list in
  which at most \<^verbatim>\<open>MAX_SLOTS\<close> identifiers differ: all the calls return, and \<^verbatim>\<open>get\<close> then returns, for
  an identifier of the list, the value of the last pair with this identifier and \<open>true\<close>, and
  for any other identifier \<open>(0, false)\<close>, leaving the store as it is. In any store, \<^verbatim>\<open>get\<close> returns
  \<open>(0, false)\<close> when the lookup does not find the identifier in the chain.
\<close>

theorem resolve_correct:
  assumes "r < length (maps s)" and "kind (maps s ! r) = EMPTY_OBJECT_MAP"
    and "card (fst ` set ps) \<le> MAX_SLOTS"
  shows "(\<exists>this s0 xs s'. Object_of_map r s = Returned this s0 \<and>
            sets s0 this ps = Some (Returned xs s') \<and>
            (\<forall>i. get s' this i =
               Some (Returned (case map_of (rev ps) i of Some v \<Rightarrow> (v, True) | None \<Rightarrow> (0, False)) s'))) \<and>
         (index t that j = Some (Returned (x, False) t) \<longrightarrow> get t that j = Some (Returned (0, False) t))"
proof
  let ?s0 = "s\<lparr>objects := objects s @ [\<lparr>Cell_map = r, Object_slots = replicate MAX_SLOTS 0\<rparr>]\<rparr>"
  let ?b = "length (objects s)"
  note fresh = well_shaped_fresh [OF assms(1,2)]
  have "card (set [] \<union> fst ` set ps) \<le> MAX_SLOTS" using assms(3) by simp
  from sets_props [OF fresh(2) this] obtain xs s' rs' where
    run: "sets ?s0 ?b ps = Some (Returned xs s')" and ws: "well_shaped s' ?b rs'"
    and pr: "props s' ?b rs' = map_of (rev ps)"
    unfolding fresh(3) by auto
  have "\<forall>i. get s' ?b i =
      Some (Returned (case map_of (rev ps) i of Some v \<Rightarrow> (v, True) | None \<Rightarrow> (0, False)) s')"
    using get_props [OF ws] pr by simp
  with fresh(1) run
  show "\<exists>this s0 xs s'. Object_of_map r s = Returned this s0 \<and>
            sets s0 this ps = Some (Returned xs s') \<and>
            (\<forall>i. get s' this i =
               Some (Returned (case map_of (rev ps) i of Some v \<Rightarrow> (v, True) | None \<Rightarrow> (0, False)) s'))"
    by blast
next
  show "index t that j = Some (Returned (x, False) t) \<longrightarrow> get t that j = Some (Returned (0, False) t)"
    by (simp add: get_def)
qed

theorem resolve_correct_witness:
  "1 < length (maps context_store) \<and> kind (maps context_store ! 1) = EMPTY_OBJECT_MAP \<and>
   card (fst ` set [(0 :: Id, 10 :: Value), (1, 20)]) \<le> MAX_SLOTS \<and>
   (\<exists>this s0 xs s'. Object_of_map 1 context_store = Returned this s0 \<and>
      sets s0 this [(0, 10), (1, 20)] = Some (Returned xs s') \<and>
      get s' this 0 = Some (Returned (10, True) s') \<and>
      get s' this 1 = Some (Returned (20, True) s') \<and>
      get s' this 2 = Some (Returned (0, False) s')) \<and>
   index xy_store 0 2 = Some (Returned (0, False) xy_store) \<and>
   get xy_store 0 2 = Some (Returned (0, False) xy_store)"
proof -
  have h1: "1 < length (maps context_store)" by code_simp
  have h2: "kind (maps context_store ! 1) = EMPTY_OBJECT_MAP" by code_simp
  have h3: "card (fst ` set [(0 :: Id, 10 :: Value), (1, 20)]) \<le> MAX_SLOTS"
    by (simp add: MAX_SLOTS_def)
  have h4: "index xy_store 0 2 = Some (Returned (0, False) xy_store)" by code_simp
  note t = resolve_correct [OF h1 h2 h3, of xy_store 0 2 0]
  from t obtain this s0 xs s' where
    a: "Object_of_map 1 context_store = Returned this s0"
      "sets s0 this [(0, 10), (1, 20)] = Some (Returned xs s')" and
    g: "\<forall>i. get s' this i =
       Some (Returned (case map_of (rev [(0, 10), (1, 20)]) i of Some v \<Rightarrow> (v, True) | None \<Rightarrow> (0, False)) s')"
    by blast
  have "get s' this 0 = Some (Returned (10, True) s')" "get s' this 1 = Some (Returned (20, True) s')"
    "get s' this 2 = Some (Returned (0, False) s')"
    using g by simp_all
  with a h1 h2 h3 h4 t show ?thesis by blast
qed

section \<open>The 33rd property\<close>

text \<open>
  C1. The 32 calls of \<^verbatim>\<open>set\<close> that build \<open>full_store\<close> return the slot indices \<open>0, \<dots>, 31\<close>: the 32nd
  distinct identifier gets the slot index 31. For a 33rd identifier \<^verbatim>\<open>newSlot\<close> does not fail:
  it allocates an \<^verbatim>\<open>ObjectMap\<close> with the slot index 32 and returns 32; and \<^verbatim>\<open>set\<close> then writes
  \<^verbatim>\<open>slots_[32]\<close>, past the end of the array of \<^verbatim>\<open>MAX_SLOTS\<close> values, which is undefined behaviour.
  Nothing in the file raises a capacity error.
\<close>

theorem capacity_not_checked:
  "sets fresh_store 0 thirty_two = Some (Returned (map of_nat [0..<32]) full_store) \<and>
   result (newSlot full_store 0 32) = Some 32 \<and>
   set_slot full_store 0 32 9 = Some Undefined"
proof -
  have "1 < length (maps context_store)" "kind (maps context_store ! 1) = EMPTY_OBJECT_MAP"
    by code_simp+
  from well_shaped_fresh(1,2) [OF this] have ws: "well_shaped fresh_store 0 []"
    by (simp add: fresh_store_def context_store_def)
  have d: "distinct (map fst thirty_two)" by code_simp
  have l: "length thirty_two = 32" by code_simp
  have n: "32 \<notin> set (rev (map fst thirty_two) @ [])" by code_simp
  from sets_distinct [OF ws d] l obtain s' where
    run: "sets fresh_store 0 thirty_two = Some (Returned (map of_nat [0..<32]) s')"
    and ws': "well_shaped s' 0 (rev (map fst thirty_two) @ [])"
    by (auto simp: MAX_SLOTS_def)
  from run have "full_store = s'" by (simp add: full_store_def)
  with run set_slot_full [OF ws' n, of 9] l show ?thesis by (simp add: MAX_SLOTS_def)
qed

section \<open>What else the missing comparison with \<^verbatim>\<open>MAX_SLOTS\<close> breaks\<close>







text \<open>
  C5. \<^verbatim>\<open>set\<close> on an identifier that is in the chain is to overwrite the slot of that identifier and
  nothing else. \<^verbatim>\<open>newSlot\<close> compares nothing with \<^verbatim>\<open>MAX_SLOTS\<close>: 33 calls on a fresh
  object, with the identifiers \<open>0, \<dots>, 32\<close>, all return and leave the identifier 32 in the chain
  with the slot index 32. The lookup finds it, and \<^verbatim>\<open>set\<close> writes \<^verbatim>\<open>slots_[32]\<close>, past the end of the
  array: undefined behaviour, not an overwrite of a slot of the object.
\<close>

theorem present_identifier_out_of_bounds:
  "newSlots fresh_store 0 thirty_three = Returned [0..<33] deep_store \<and>
   index deep_store 0 32 = Some (Returned (32, True) deep_store) \<and>
   set_slot deep_store 0 32 5 = Some Undefined"
proof -
  have lt: "0 < length (objects fresh_store)" by code_simp
  have "chain (maps fresh_store) (Cell_map (objects fresh_store ! 0)) (transitions [])" by code_simp
  from newSlots_chain [OF lt this, of thirty_three] obtain s' where
    r: "newSlots fresh_store 0 thirty_three =
          Returned (map (\<lambda>k. unat (of_nat k :: Index))
            [length ([] :: Id list)..<length ([] :: Id list) + length thirty_three]) s'"
    and lt': "0 < length (objects s')"
    and ch0: "chain (maps s') (Cell_map (objects s' ! 0)) (transitions (rev thirty_three @ []))"
    by blast
  have ch: "chain (maps s') (Cell_map (objects s' ! 0)) (transitions (rev thirty_three))"
    using ch0 by (simp only: append_Nil2)
  have l33: "length thirty_three = 33" by (simp add: thirty_three_def)
  have "map (\<lambda>k. unat (of_nat k :: Index)) [0..<33] = [0..<33]"
    by (intro map_idI) (simp add: unat_of_nat)
  with r have r': "newSlots fresh_store 0 thirty_three = Returned [0..<33] s'"
    by (simp only: list.size l33 add_0)
  then have d: "deep_store = s'" by (simp only: deep_store_def outcome.case)
  have "map_of (transitions (rev thirty_three)) 32 = Some 32" by code_simp
  with index_loop_chain [OF ch, of 32]
  have "index_loop s' (Cell_map (objects s' ! 0)) 32 = Some (Returned (32, True) s')"
    by (simp only: option.case)
  with lt' have i: "index s' 0 32 = Some (Returned (32, True) s')"
    by (simp only: index_def if_True)
  then have w: "set_slot s' 0 32 5 = Some Undefined"
    by (simp add: set_slot_def slot_write_def MAX_SLOTS_def)
  show ?thesis unfolding d
    by (intro conjI) (fact r' i w)+
qed



section \<open>Termination\<close>

lemma parents_older_iff:
  "parents_older ms \<longleftrightarrow>
     (\<forall>a<length ms. \<forall>om. ms ! a = IsObjectMap om \<longrightarrow> ObjectMap_parent om < a)"
  by (auto simp: parents_older_def list_all_iff split: MapObj.splits)

lemma parents_older_context: "parents_older (maps context_store)"
  by code_simp

lemma parents_older_newSlot:
  assumes "parents_older (maps s)" and "newSlot s this i = Returned k s'"
  shows "parents_older (maps s')"
proof -
  from assms(2) obtain om where m: "maps s' = maps s @ [IsObjectMap om]"
    and p: "ObjectMap_parent om < length (maps s)"
    by (auto simp: newSlot_def Let_def ObjectMap_of_EmptyObjectMap_def ObjectMap_of_ObjectMap_def
        split: if_splits MapKind.splits MapObj.splits)
  show ?thesis
    unfolding parents_older_iff m
  proof (intro allI impI)
    fix a om'
    assume a: "a < length (maps s @ [IsObjectMap om])" and c: "(maps s @ [IsObjectMap om]) ! a = IsObjectMap om'"
    show "ObjectMap_parent om' < a"
    proof (cases "a < length (maps s)")
      case True
      with c assms(1) show ?thesis by (auto simp: parents_older_iff nth_append)
    next
      case False
      with a have "a = length (maps s)" by simp
      with c p show ?thesis by simp
    qed
  qed
qed

lemma set_slot_maps:
  assumes "set_slot s this i v = Some (Returned x s')"
  shows "maps s' = maps s \<or> (\<exists>k s1. newSlot s this i = Returned k s1 \<and> maps s' = maps s1)"
proof (rule index_cases [of s this i])
  assume "index s this i = None"
  with assms show ?thesis by (simp add: set_slot_def)
next
  assume "index s this i = Some Undefined"
  with assms show ?thesis by (simp add: set_slot_def)
next
  fix l assume l: "index s this i = Some (Returned l s)"
  show ?thesis
  proof (cases "snd l")
    case True
    with assms l show ?thesis
      by (auto simp: set_slot_def slot_write_def split: if_splits)
  next
    case False
    with assms l show ?thesis
      by (cases "newSlot s this i") (auto simp: set_slot_def slot_write_def split: if_splits)
  qed
qed

lemma parents_older_run:
  assumes "parents_older (maps s)" and "run s c = Some (Returned u s')"
  shows "parents_older (maps s')"
proof (cases c)
  case (Get this i)
  with assms get_cases [of s this i] show ?thesis by auto
next
  case (Set this i v)
  with assms(2) obtain x where "set_slot s this i v = Some (Returned x s')"
    by (cases "set_slot s this i v") (auto simp: bind_def split: outcome.splits)
  from set_slot_maps [OF this] assms(1) parents_older_newSlot [OF assms(1)] show ?thesis by auto
next
  case (NewSlot this i)
  with assms(2) obtain k where "newSlot s this i = Returned k s'"
    by (cases "newSlot s this i") auto
  with assms(1) show ?thesis by (rule parents_older_newSlot)
qed

lemma parents_older_run_all:
  "parents_older (maps s) \<Longrightarrow> run_all s cs = Some (Returned u s') \<Longrightarrow> parents_older (maps s')"
proof (induction cs arbitrary: s)
  case Nil
  then show ?case by simp
next
  case (Cons c cs)
  from Cons.prems(2) obtain s1 where 1: "run s c = Some (Returned () s1)"
    and 2: "run_all s1 cs = Some (Returned u s')"
    by (cases "run s c") (auto simp: bind_def split: outcome.splits)
  from Cons.IH [OF parents_older_run [OF Cons.prems(1) 1] 2] show ?case .
qed

lemma transitions_keys: "fst ` set (transitions rs) = set rs"
  by (metis transitions_fst set_map)

lemma index_within_mono:
  "index_within n s m i = Some r \<Longrightarrow> n \<le> n' \<Longrightarrow> index_within n' s m i = Some r"
proof (induction n arbitrary: m n')
  case 0
  then show ?case by simp
next
  case (Suc n)
  from Suc.prems(2) obtain k where k: "n' = Suc k" "n \<le> k" by (cases n') auto
  with Suc.prems(1) Suc.IH show ?case
    by (auto split: if_splits MapObj.splits)
qed

lemma index_within_sound:
  "index_within n s m i = Some r \<Longrightarrow> index_loop s m i = Some r"
proof (induction n arbitrary: m)
  case 0
  then show ?case by simp
next
  case (Suc n)
  then show ?case
    by (subst index_loop.simps) (auto split: if_splits MapObj.splits)
qed

lemma index_within_older:
  assumes "parents_older (maps s)"
  shows "\<exists>r. index_within (Suc m) s m i = Some r"
proof (induction m rule: less_induct)
  case (less m)
  show ?case
  proof (cases "m < length (maps s)")
    case False
    then show ?thesis by simp
  next
    case m: True
    show ?thesis
    proof (cases "maps s ! m")
      case (IsMap mp)
      with m show ?thesis by simp
    next
      case (IsObjectMap om)
      with assms m have "ObjectMap_parent om < m" by (simp add: parents_older_iff)
      from less.IH [OF this] obtain r where
        "index_within (Suc (ObjectMap_parent om)) s (ObjectMap_parent om) i = Some r" ..
      from index_within_mono [OF this, of m] \<open>ObjectMap_parent om < m\<close>
      have "index_within m s (ObjectMap_parent om) i = Some r" by simp
      with m IsObjectMap show ?thesis by simp
    qed
  qed
qed

lemma index_within_chain:
  "chain (maps s) m l \<Longrightarrow>
   index_within (Suc (length l)) s m i =
     Some (case map_of l i of None \<Rightarrow> Returned (0, False) s | Some x \<Rightarrow> Returned (x, True) s)"
proof (induction l arbitrary: m)
  case Nil
  then show ?case by simp
next
  case (Cons e l)
  from Cons.prems obtain om where m: "m < length (maps s)" and om: "maps s ! m = IsObjectMap om"
    and k: "Map_kind om = OBJECT_MAP" and e: "ObjectMap_id om = fst e" "ObjectMap_index om = snd e"
    and rest: "chain (maps s) (ObjectMap_parent om) l"
    by (auto split: MapObj.splits)
  from Cons.IH [OF rest] m om k e show ?case by (cases e) simp
qed

lemma index_within_short:
  "chain (maps s) m l \<Longrightarrow> i \<notin> fst ` set l \<Longrightarrow> n \<le> length l \<Longrightarrow> index_within n s m i = None"
proof (induction n arbitrary: m l)
  case 0
  then show ?case by simp
next
  case (Suc n)
  from Suc.prems(3) obtain e l' where l: "l = e # l'" "n \<le> length l'" by (cases l) auto
  with Suc.prems(1) obtain om where m: "m < length (maps s)" and om: "maps s ! m = IsObjectMap om"
    and k: "Map_kind om = OBJECT_MAP" and e: "ObjectMap_id om = fst e"
    and rest: "chain (maps s) (ObjectMap_parent om) l'"
    by (auto split: MapObj.splits)
  from Suc.prems(2) l have "i \<noteq> fst e" "i \<notin> fst ` set l'" by auto
  with Suc.IH [OF rest _ l(2)] m om k e show ?case by simp
qed

lemma terminates:
  assumes "parents_older (maps s)"
  shows "\<exists>r. index s this i = Some r" and "\<exists>r. get s this i = Some r"
    and "\<exists>r. set_slot s this i v = Some r"
proof -
  show i: "\<exists>r. index s this i = Some r"
  proof (cases "this < length (objects s)")
    case True
    from index_within_older [OF assms, of "Cell_map (objects s ! this)" i] obtain r where
      "index_within (Suc (Cell_map (objects s ! this))) s (Cell_map (objects s ! this)) i = Some r" ..
    from index_within_sound [OF this] True show ?thesis by (simp add: index_def)
  next
    case False
    then show ?thesis by (simp add: index_def)
  qed
  then obtain r where r: "index s this i = Some r" ..
  show "\<exists>r. get s this i = Some r"
    using r by (cases r) (auto simp: get_def slot_read_def)
  show "\<exists>r. set_slot s this i v = Some r"
  proof (cases r)
    case (Returned l s1)
    then show ?thesis
      using r by (cases "newSlot s1 this i") (auto simp: set_slot_def slot_write_def)
  qed (use r in \<open>auto simp: set_slot_def\<close>)
qed

text \<open>
  In a store where every \<^verbatim>\<open>ObjectMap\<close> is younger than its parent (the constructors build no
  other store, see \<open>parents_older_context\<close> and \<open>parents_older_run_all\<close>), the loops of \<^verbatim>\<open>index\<close>, \<^verbatim>\<open>get\<close>
  and \<^verbatim>\<open>set\<close> end, whatever the object and the identifier; \<^verbatim>\<open>newSlot\<close> has no loop. On a chain of
  \<open>depth\<close> \<^verbatim>\<open>ObjectMap\<close>s the loop of \<^verbatim>\<open>index\<close> ends within \<open>depth + 1\<close> tests of its condition.
\<close>

theorem operations_terminate:
  assumes "parents_older (maps s)"
  shows "(\<exists>r. index s this i = Some r) \<and> (\<exists>r. get s this i = Some r) \<and>
         (\<exists>r. set_slot s this i v = Some r) \<and>
         (chain (maps s) m l \<longrightarrow>
            (\<exists>r. index_within (Suc (length l)) s m i = Some r \<and> index_loop s m i = Some r))"
proof (intro conjI impI)
  show "\<exists>r. index s this i = Some r" "\<exists>r. get s this i = Some r" "\<exists>r. set_slot s this i v = Some r"
    using terminates [OF assms] by blast+
next
  assume "chain (maps s) m l"
  from index_within_chain [OF this, of i] index_within_sound
  show "\<exists>r. index_within (Suc (length l)) s m i = Some r \<and> index_loop s m i = Some r"
    by blast
qed

theorem operations_terminate_witness:
  "parents_older (maps xy_store) \<and>
   index xy_store 0 5 = Some (Returned (0, False) xy_store) \<and>
   get xy_store 0 1 = Some (Returned (20, True) xy_store) \<and>
   (\<exists>r. set_slot xy_store 0 5 9 = Some r) \<and>
   chain (maps xy_store) 3 [(1, 1), (0, 0)] \<and>
   index_within 3 xy_store 3 5 = Some (Returned (0, False) xy_store) \<and>
   index_loop xy_store 3 5 = Some (Returned (0, False) xy_store)"
proof -
  have h: "parents_older (maps xy_store)" by code_simp
  have c: "chain (maps xy_store) 3 [(1, 1), (0, 0)]" by code_simp
  have e: "index xy_store 0 5 = Some (Returned (0, False) xy_store)"
    "get xy_store 0 1 = Some (Returned (20, True) xy_store)"
    "index_within 3 xy_store 3 5 = Some (Returned (0, False) xy_store)"
    "index_loop xy_store 3 5 = Some (Returned (0, False) xy_store)"
    by code_simp+
  from operations_terminate [OF h, of 0 5 9 3 "[(1, 1), (0, 0)]"] h c e
  show ?thesis by simp
qed

text \<open>
  C8. The walk of \<^verbatim>\<open>index\<close> is to be bounded because the depth of a chain is bounded by \<^verbatim>\<open>MAX_SLOTS\<close>.
  The walk does end (see above), but \<^verbatim>\<open>newSlot\<close> compares nothing with \<^verbatim>\<open>MAX_SLOTS\<close> : 33 calls on a fresh object, with 33 identifiers, all return and leave a chain of 33
  \<^verbatim>\<open>ObjectMap\<close>s, on which the lookup of an identifier that is not there needs more than 33 tests of
  the loop condition to end.
\<close>

theorem depth_not_bounded:
  "newSlots fresh_store 0 thirty_three = Returned [0..<33] deep_store \<and>
   chain (maps deep_store) (Cell_map (objects deep_store ! 0)) (transitions (rev thirty_three)) \<and>
   length (transitions (rev thirty_three)) = 33 \<and> MAX_SLOTS < 33 \<and>
   index_within 33 deep_store (Cell_map (objects deep_store ! 0)) 99 = None \<and>
   index deep_store 0 99 = Some (Returned (0, False) deep_store)"
proof -
  have lt: "0 < length (objects fresh_store)" by code_simp
  have "chain (maps fresh_store) (Cell_map (objects fresh_store ! 0)) (transitions [])" by code_simp
  from newSlots_chain [OF lt this, of thirty_three] obtain s' where
    r: "newSlots fresh_store 0 thirty_three =
          Returned (map (\<lambda>k. unat (of_nat k :: Index))
            [length ([] :: Id list)..<length ([] :: Id list) + length thirty_three]) s'"
    and lt': "0 < length (objects s')"
    and ch0: "chain (maps s') (Cell_map (objects s' ! 0)) (transitions (rev thirty_three @ []))"
    by blast
  have ch: "chain (maps s') (Cell_map (objects s' ! 0)) (transitions (rev thirty_three))"
    using ch0 by (simp only: append_Nil2)
  have l33: "length thirty_three = 33" by (simp add: thirty_three_def)
  have "map (\<lambda>k. unat (of_nat k :: Index)) [0..<33] = [0..<33]"
    by (intro map_idI) (simp add: unat_of_nat)
  with r have r': "newSlots fresh_store 0 thirty_three = Returned [0..<33] s'"
    by (simp only: list.size l33 add_0)
  then have d: "deep_store = s'" by (simp only: deep_store_def outcome.case)
  have absent: "99 \<notin> set (rev thirty_three)" by code_simp
  have n: "99 \<notin> fst ` set (transitions (rev thirty_three))"
    unfolding transitions_keys by (fact absent)
  have len: "length (transitions (rev thirty_three)) = 33"
    by (simp only: transitions_length length_rev l33)
  have w: "index_within 33 s' (Cell_map (objects s' ! 0)) 99 = None"
    using ch n by (rule index_within_short) (simp only: len order_refl)
  have "map_of (transitions (rev thirty_three)) 99 = None"
    unfolding transitions_None by (fact absent)
  with index_loop_chain [OF ch, of 99]
  have "index_loop s' (Cell_map (objects s' ! 0)) 99 = Some (Returned (0, False) s')"
    by (simp only: option.case)
  with lt' have i: "index s' 0 99 = Some (Returned (0, False) s')"
    by (simp only: index_def if_True)
  have m: "MAX_SLOTS < 33" by (simp add: MAX_SLOTS_def)
  show ?thesis unfolding d
    by (intro conjI) (fact r' ch len m w i)+
qed

end
